theory Spec2Isabelle
  imports Main
begin

section \<open>Python values used by \<^verbatim>\<open>pdf_outliner/core.py\<close>\<close>

text \<open>
  A Python \<^verbatim>\<open>str\<close> is a sequence of Unicode code points and \<^verbatim>\<open>len\<close> counts code
  points, so a string is modelled as a list of code points. Literals of the source are
  ASCII and are written through \<open>py\<close>.
\<close>

type_synonym pystr = "nat list"

definition py :: "string \<Rightarrow> pystr" where
  "py s = map of_char s"

text \<open>\<^verbatim>\<open>str(n)\<close> for an integer, as the f-strings of the source render it.\<close>

function str_nat :: "nat \<Rightarrow> pystr" where
  "str_nat n = (if n < 10 then [48 + n] else str_nat (n div 10) @ [48 + n mod 10])"
  by pat_completeness auto
termination
  by (relation "measure (\<lambda>n. n)") auto

declare str_nat.simps [simp del]

definition str_int :: "int \<Rightarrow> pystr" where
  "str_int i = (if i < 0 then 45 # str_nat (nat (- i)) else str_nat (nat i))"

section \<open>Data model: \<^verbatim>\<open>Heading\<close> and \<^verbatim>\<open>DocumentOutline\<close>\<close>

text \<open>
  \<^verbatim>\<open>class Heading(BaseModel)\<close>: \<^verbatim>\<open>title: str = Field(...)\<close>,
  \<^verbatim>\<open>level: int = Field(..., ge=1, le=6)\<close>, \<^verbatim>\<open>page: int = Field(..., ge=1)\<close>.
\<close>

record Heading =
  title :: pystr
  level :: int
  page :: int

datatype constraint = greater_than_equal | less_than_equal

text \<open>One entry of a validation error: the field and the constraint it violates.\<close>

type_synonym field_error = "string \<times> constraint"

text \<open>An entry of the outline's validation error also carries the index of the heading.\<close>

datatype py_error =
    IndexError
  | ValidationError "(nat \<times> field_error) list"
  | RuntimeError py_error

text \<open>
  The checks the field declarations ask for, in field order. The title has no constraint
  beyond its type; the level is checked against \<open>ge=1\<close> and \<open>le=6\<close>, the page against
  \<open>ge=1\<close>.
\<close>

definition Heading_errors :: "pystr \<Rightarrow> int \<Rightarrow> int \<Rightarrow> field_error list" where
  "Heading_errors t l p =
     (if l < 1 then [(''level'', greater_than_equal)]
      else if l > 6 then [(''level'', less_than_equal)] else [])
     @ (if p < 1 then [(''page'', greater_than_equal)] else [])"

text \<open>Constructing a \<^verbatim>\<open>Heading\<close>: the validated record, or the list of violations.\<close>

definition Heading_validate :: "pystr \<Rightarrow> int \<Rightarrow> int \<Rightarrow> field_error list + Heading" where
  "Heading_validate t l p =
     (if Heading_errors t l p = [] then Inr \<lparr>title = t, level = l, page = p\<rparr>
      else Inl (Heading_errors t l p))"

text \<open>
  \<^verbatim>\<open>DocumentOutline(**data)\<close>: every element of \<^verbatim>\<open>headings\<close> is validated; the
  violations of all elements are collected, and one violation anywhere makes the
  construction of the whole outline fail.
\<close>

fun outline_errors :: "nat \<Rightarrow> (pystr \<times> int \<times> int) list \<Rightarrow> (nat \<times> field_error) list" where
  "outline_errors i [] = []"
| "outline_errors i ((t, l, p) # rest) =
     map (\<lambda>e. (i, e)) (Heading_errors t l p) @ outline_errors (Suc i) rest"

definition DocumentOutline_validate ::
  "(pystr \<times> int \<times> int) list \<Rightarrow> py_error + Heading list" where
  "DocumentOutline_validate raw =
     (if outline_errors 0 raw = []
      then Inr (map (\<lambda>(t, l, p). \<lparr>title = t, level = l, page = p\<rparr>) raw)
      else Inl (ValidationError (outline_errors 0 raw)))"

text \<open>
  The end of \<^verbatim>\<open>analyze_pdf_with_llm\<close>: the parsed response is validated, and any
  exception is wrapped in a \<^verbatim>\<open>RuntimeError\<close>.
\<close>

definition parse_outline :: "(pystr \<times> int \<times> int) list \<Rightarrow> py_error + Heading list" where
  "parse_outline raw =
     (case DocumentOutline_validate raw of
        Inl e \<Rightarrow> Inl (RuntimeError e)
      | Inr outline \<Rightarrow> Inr outline)"

section \<open>Document text sent for classification\<close>

text \<open>
  The start of \<^verbatim>\<open>analyze_pdf_with_llm\<close>: each page contributes a marker line with its
  number and then its text; a page is the pair of its number and its text.
\<close>

definition page_marker :: "int \<Rightarrow> pystr" where
  "page_marker n = [10] @ py ''--- PAGE '' @ str_int n @ py '' ---'' @ [10]"

fun concat_pages :: "pystr \<Rightarrow> (int \<times> pystr) list \<Rightarrow> pystr" where
  "concat_pages document_text [] = document_text"
| "concat_pages document_text ((n, text) # pages) =
     concat_pages (document_text @ page_marker n @ text) pages"

definition max_chars :: nat where
  "max_chars = 50000"

definition truncation_marker :: pystr where
  "truncation_marker = [10, 10] @ py ''[Document truncated...]''"

definition truncate_text :: "pystr \<Rightarrow> pystr" where
  "truncate_text document_text =
     (if length document_text > max_chars
      then take max_chars document_text @ truncation_marker
      else document_text)"

definition document_text_for_llm :: "(int \<times> pystr) list \<Rightarrow> pystr" where
  "document_text_for_llm pages = truncate_text (concat_pages [] pages)"

section \<open>The bookmark builder: \<^verbatim>\<open>add_bookmarks_to_pdf\<close>\<close>

text \<open>
  The method reads the input document, copies its pages into a fresh writer, runs the
  loop over the headings and writes the writer to the output path. Reading and writing
  files are left out; what is kept of the document is its number of pages, and what is
  kept of the writer is its outline.

  The writer's outline is a store of items. The library call \<^verbatim>\<open>add_outline_item\<close>
  creates an item as the last child of its parent (of the outline root when the parent is
  \<^verbatim>\<open>None\<close>) and returns a reference to it; a reference is the position of the item in
  the store, which is the order of creation. The children of a parent, in order, are
  therefore the items that name it, in store order.
\<close>

record outline_item =
  item_title :: pystr
  page_number :: int
  parent :: "nat option"

definition add_outline_item ::
  "pystr \<Rightarrow> int \<Rightarrow> nat option \<Rightarrow> outline_item list \<Rightarrow> nat \<times> outline_item list" where
  "add_outline_item t pn par its =
     (length its, its @ [\<lparr>item_title = t, page_number = pn, parent = par\<rparr>])"

definition children :: "outline_item list \<Rightarrow> nat option \<Rightarrow> nat list" where
  "children its par = filter (\<lambda>i. parent (its ! i) = par) [0..<length its]"

text \<open>
  The state of the loop: the writer's outline, the local \<^verbatim>\<open>parent_stack\<close> (whose entries
  are \<^verbatim>\<open>None\<close> or a reference to an item) and what has been printed on the error
  stream, one entry per \<^verbatim>\<open>print\<close>.
\<close>

record builder_state =
  items :: "outline_item list"
  parent_stack :: "nat option list"
  stderr :: "pystr list"

definition warning_text :: "Heading \<Rightarrow> pystr" where
  "warning_text heading =
     py ''Warning: Skipping heading '' @ [39] @ title heading @ [39]
     @ py '' - page '' @ str_int (page heading) @ py '' out of range''"

text \<open>
  \<^verbatim>\<open>while len(parent_stack) > heading.level: parent_stack.pop()\<close>; popping an empty
  list raises \<^verbatim>\<open>IndexError\<close>.
\<close>

function pop_loop :: "int \<Rightarrow> 'a list \<Rightarrow> py_error + 'a list" where
  "pop_loop lvl stack =
     (if int (length stack) > lvl
      then (if stack = [] then Inl IndexError else pop_loop lvl (butlast stack))
      else Inr stack)"
  by pat_completeness auto
termination
  by (relation "measure (\<lambda>(lvl, stack). length stack)") auto

declare pop_loop.simps [simp del]

text \<open>
  \<^verbatim>\<open>while len(parent_stack) < heading.level: parent_stack.append(parent_stack[-1])\<close>;
  reading the last element of an empty list raises \<^verbatim>\<open>IndexError\<close>.
\<close>

function pad_loop :: "int \<Rightarrow> 'a list \<Rightarrow> py_error + 'a list" where
  "pad_loop lvl stack =
     (if int (length stack) < lvl
      then (if stack = [] then Inl IndexError else pad_loop lvl (stack @ [last stack]))
      else Inr stack)"
  by pat_completeness auto
termination
  by (relation "measure (\<lambda>(lvl, stack). nat (lvl - int (length stack)))") auto

declare pad_loop.simps [simp del]

text \<open>\<^verbatim>\<open>xs[i] = v\<close> on a Python list: a negative index counts from the end.\<close>

definition list_setitem :: "'a list \<Rightarrow> int \<Rightarrow> 'a \<Rightarrow> py_error + 'a list" where
  "list_setitem xs i v =
     (let n = int (length xs); j = (if i < 0 then n + i else i)
      in if 0 \<le> j \<and> j < n then Inr (xs[nat j := v]) else Inl IndexError)"

text \<open>
  The last statement of the loop body: append the bookmark when the stack has exactly
  \<^verbatim>\<open>heading.level\<close> entries, otherwise overwrite the entry at that index.
\<close>

definition update_stack :: "int \<Rightarrow> 'a \<Rightarrow> 'a list \<Rightarrow> py_error + 'a list" where
  "update_stack lvl bookmark stack =
     (if int (length stack) = lvl then Inr (stack @ [bookmark])
      else list_setitem stack lvl bookmark)"

text \<open>One iteration of \<^verbatim>\<open>for heading in outline.headings\<close>, with \<open>N = len(writer.pages)\<close>.\<close>

definition loop_body :: "nat \<Rightarrow> builder_state \<Rightarrow> Heading \<Rightarrow> py_error + builder_state" where
  "loop_body N st heading =
     (let page_num = page heading - 1 in
      if page_num < 0 \<or> page_num \<ge> int N
      then Inr (st\<lparr>stderr := stderr st @ [warning_text heading]\<rparr>)
      else
        case pop_loop (level heading) (parent_stack st) of
          Inl e \<Rightarrow> Inl e
        | Inr popped \<Rightarrow>
            let par = (if length popped > 0 then last popped else None);
                (bookmark, its) = add_outline_item (title heading) page_num par (items st)
            in (case pad_loop (level heading) popped of
                  Inl e \<Rightarrow> Inl e
                | Inr padded \<Rightarrow>
                    (case update_stack (level heading) (Some bookmark) padded of
                       Inl e \<Rightarrow> Inl e
                     | Inr stack \<Rightarrow> Inr (st\<lparr>items := its, parent_stack := stack\<rparr>))))"

fun for_loop :: "nat \<Rightarrow> builder_state \<Rightarrow> Heading list \<Rightarrow> py_error + builder_state" where
  "for_loop N st [] = Inr st"
| "for_loop N st (heading # rest) =
     (case loop_body N st heading of
        Inl e \<Rightarrow> Inl e
      | Inr st' \<Rightarrow> for_loop N st' rest)"

text \<open>
  The builder on a document of \<open>N\<close> pages: a fresh writer has no outline item, the stack
  starts as \<^verbatim>\<open>[None]\<close>, and the error stream holds whatever the process printed before.
\<close>

definition add_bookmarks_to_pdf ::
  "pystr list \<Rightarrow> nat \<Rightarrow> Heading list \<Rightarrow> py_error + builder_state" where
  "add_bookmarks_to_pdf err N headings =
     for_loop N \<lparr>items = [], parent_stack = [None], stderr = err\<rparr> headings"

text \<open>
  \<^verbatim>\<open>process_pdf\<close>: the text is extracted, the classification response is validated by
  \<^verbatim>\<open>analyze_pdf_with_llm\<close>, the builder runs on the validated outline, and the outline is
  returned. The classification service is external: its parsed response is a parameter.
  An exception of either step propagates, so the builder is not called on a response that
  fails validation. The progress lines go to the standard output and are left out.
\<close>

definition process_pdf ::
  "pystr list \<Rightarrow> nat \<Rightarrow> (pystr \<times> int \<times> int) list
     \<Rightarrow> py_error + Heading list \<times> builder_state" where
  "process_pdf err N response =
     (case parse_outline response of
        Inl e \<Rightarrow> Inl e
      | Inr outline \<Rightarrow>
          (case add_bookmarks_to_pdf err N outline of
             Inl e \<Rightarrow> Inl e
           | Inr st \<Rightarrow> Inr (outline, st)))"

section \<open>Notions the properties are stated with\<close>

text \<open>
  A heading is in range when its page is one of the \<open>N\<close> pages of the document; the
  builder attaches a node for the headings in range and skips the others.
\<close>

definition in_range :: "nat \<Rightarrow> Heading \<Rightarrow> bool" where
  "in_range N h = (1 \<le> page h \<and> page h \<le> int N)"

definition attached :: "nat \<Rightarrow> Heading list \<Rightarrow> Heading list" where
  "attached N hs = filter (in_range N) hs"

definition skipped :: "nat \<Rightarrow> Heading list \<Rightarrow> Heading list" where
  "skipped N hs = filter (\<lambda>h. \<not> in_range N h) hs"

text \<open>The level of the heading attached last, 0 when no heading has been attached.\<close>

definition prev_level :: "nat \<Rightarrow> Heading list \<Rightarrow> int" where
  "prev_level N hs = (if attached N hs = [] then 0 else level (last (attached N hs)))"

text \<open>The reference to the item created last, \<^verbatim>\<open>None\<close> when the outline is empty.\<close>

definition newest :: "outline_item list \<Rightarrow> nat option" where
  "newest its = (if its = [] then None else Some (length its - 1))"

text \<open>
  A well-formed sequence of levels: every level is at least 1 and at most one greater
  than its predecessor, the first one being 1.
\<close>

fun well_formed_from :: "int \<Rightarrow> int list \<Rightarrow> bool" where
  "well_formed_from prev [] = True"
| "well_formed_from prev (l # ls) = (1 \<le> l \<and> l \<le> prev + 1 \<and> well_formed_from l ls)"

definition well_formed_levels :: "int list \<Rightarrow> bool" where
  "well_formed_levels ls = well_formed_from 0 ls"

text \<open>
  The nesting the levels imply: the parent of heading \<open>i\<close> is the most recent earlier
  heading whose level is one less, and a heading of level 1 is at the top.
  \<open>last_with_level k ls\<close> is the greatest position of \<open>ls\<close> that holds level \<open>k\<close>.
\<close>

fun last_with_level :: "int \<Rightarrow> int list \<Rightarrow> nat option" where
  "last_with_level k [] = None"
| "last_with_level k (l # ls) =
     (case last_with_level k ls of
        Some j \<Rightarrow> Some (Suc j)
      | None \<Rightarrow> if l = k then Some 0 else None)"

definition expected_parent :: "int list \<Rightarrow> nat \<Rightarrow> nat option" where
  "expected_parent ls i =
     (if ls ! i = 1 then None else last_with_level (ls ! i - 1) (take i ls))"

text \<open>
  The depth of an item in the outline: the number of items on the path from it up to the
  top, itself included. The walk along the parent references is bounded by the number of
  items.
\<close>

fun depth_fuel :: "nat \<Rightarrow> outline_item list \<Rightarrow> nat \<Rightarrow> nat" where
  "depth_fuel 0 its i = 0"
| "depth_fuel (Suc f) its i =
     (case parent (its ! i) of
        None \<Rightarrow> 1
      | Some j \<Rightarrow> Suc (depth_fuel f its j))"

definition depth :: "outline_item list \<Rightarrow> nat \<Rightarrow> nat" where
  "depth its i = depth_fuel (length its) its i"

text \<open>
  The bookmark tree as a function of the outline and the page count, written without a
  loop, a stack or any other state. Only the headings in range count. If one of them has
  a negative level there is no tree but an \<^verbatim>\<open>IndexError\<close>. Otherwise there is one item
  per heading in range, in order, with its title and its 0-based page, and its parent is
  the nearest shallower heading before it: the most recent earlier heading in range whose
  level is smaller, and none when there is no such heading.
  \<open>last_below k ls\<close> is the greatest position of \<open>ls\<close> that holds a level below \<open>k\<close>.
\<close>

fun last_below :: "int \<Rightarrow> int list \<Rightarrow> nat option" where
  "last_below k [] = None"
| "last_below k (l # ls) =
     (case last_below k ls of
        Some j \<Rightarrow> Some (Suc j)
      | None \<Rightarrow> if l < k then Some 0 else None)"

definition nearest_shallower :: "int list \<Rightarrow> nat \<Rightarrow> nat option" where
  "nearest_shallower ls i = last_below (ls ! i) (take i ls)"

definition bookmark_tree :: "nat \<Rightarrow> Heading list \<Rightarrow> py_error + outline_item list" where
  "bookmark_tree N hs =
     (let kept = attached N hs; ls = map level kept
      in if list_ex (\<lambda>l. l < 0) ls then Inl IndexError
         else Inr (map (\<lambda>i. \<lparr>item_title = title (kept ! i),
                              page_number = page (kept ! i) - 1,
                              parent = nearest_shallower ls i\<rparr>)
                    [0..<length kept]))"

text \<open>The outline a run produces, or the error it raises.\<close>

definition outline_of :: "py_error + builder_state \<Rightarrow> py_error + outline_item list" where
  "outline_of r = map_sum id items r"

section \<open>The two inner loops in closed form\<close>

text \<open>
  Popping down to \<open>lvl\<close> entries keeps the first \<open>lvl\<close> entries and fails on a
  negative \<open>lvl\<close>; padding up to \<open>lvl\<close> entries repeats the last entry and fails
  on an empty stack.
\<close>

lemma pop_loop_closed:
  "pop_loop lvl stack =
     (if int (length stack) \<le> lvl then Inr stack
      else if lvl < 0 then Inl IndexError
      else Inr (take (nat lvl) stack))"
proof (induction lvl stack rule: pop_loop.induct)
  case (1 lvl stack)
  show ?case
  proof (cases "int (length stack) > lvl")
    case False
    then show ?thesis by (subst pop_loop.simps) simp
  next
    case True
    show ?thesis
    proof (cases "stack = []")
      case True
      with \<open>int (length stack) > lvl\<close> show ?thesis by (subst pop_loop.simps) simp
    next
      case False
      have step: "pop_loop lvl stack = pop_loop lvl (butlast stack)"
        using True False by (subst pop_loop.simps) simp
      have ih: "pop_loop lvl (butlast stack) =
          (if int (length (butlast stack)) \<le> lvl then Inr (butlast stack)
           else if lvl < 0 then Inl IndexError else Inr (take (nat lvl) (butlast stack)))"
        using "1.IH" True False by simp
      show ?thesis
      proof (cases "int (length (butlast stack)) \<le> lvl")
        case le: True
        with True False have "nat lvl = length stack - 1" by simp
        then have bl: "butlast stack = take (nat lvl) stack"
          by (simp add: butlast_conv_take)
        have "(0::int) \<le> int (length (butlast stack))" by (rule of_nat_0_le_iff)
        with le have nn: "\<not> lvl < 0" by linarith
        from step ih le have "pop_loop lvl stack = Inr (butlast stack)" by simp
        with bl have "pop_loop lvl stack = Inr (take (nat lvl) stack)" by simp
        with nn True show ?thesis by simp
      next
        case gt: False
        show ?thesis
        proof (cases "lvl < 0")
          case True
          with step ih gt \<open>int (length stack) > lvl\<close> show ?thesis by simp
        next
          case nonneg: False
          with gt have "nat lvl < length stack - 1" by simp
          then have "take (nat lvl) (butlast stack) = take (nat lvl) stack"
            by (simp add: take_butlast)
          with step ih gt nonneg True show ?thesis by simp
        qed
      qed
    qed
  qed
qed

lemma pad_loop_closed:
  "pad_loop lvl stack =
     (if lvl \<le> int (length stack) then Inr stack
      else if stack = [] then Inl IndexError
      else Inr (stack @ replicate (nat lvl - length stack) (last stack)))"
proof (induction lvl stack rule: pad_loop.induct)
  case (1 lvl stack)
  show ?case
  proof (cases "int (length stack) < lvl")
    case False
    then show ?thesis by (subst pad_loop.simps) simp
  next
    case True
    show ?thesis
    proof (cases "stack = []")
      case True
      with \<open>int (length stack) < lvl\<close> show ?thesis by (subst pad_loop.simps) simp
    next
      case False
      have step: "pad_loop lvl stack = pad_loop lvl (stack @ [last stack])"
        using True False by (subst pad_loop.simps) simp
      have ih: "pad_loop lvl (stack @ [last stack]) =
          (if lvl \<le> int (length stack) + 1 then Inr (stack @ [last stack])
           else Inr ((stack @ [last stack]) @ replicate (nat lvl - Suc (length stack)) (last stack)))"
        using "1.IH" True False by simp
      from True have d: "nat lvl - length stack = Suc (nat lvl - Suc (length stack))"
        by arith
      have "pad_loop lvl (stack @ [last stack]) =
          Inr (stack @ replicate (nat lvl - length stack) (last stack))"
      proof (cases "lvl \<le> int (length stack) + 1")
        case True
        with \<open>int (length stack) < lvl\<close> have "nat lvl - Suc (length stack) = 0" by simp
        with d ih True show ?thesis by simp
      next
        case False
        with d ih show ?thesis by simp
      qed
      with step True False show ?thesis by simp
    qed
  qed
qed

section \<open>One iteration, and the state after any number of iterations\<close>

lemma loop_body_skip:
  "\<not> in_range N h \<Longrightarrow>
   loop_body N st h = Inr (st\<lparr>stderr := stderr st @ [warning_text h]\<rparr>)"
  by (auto simp: loop_body_def in_range_def Let_def)

lemma loop_body_attach:
  assumes "in_range N h" and "1 \<le> level h" and "parent_stack st \<noteq> []"
  shows "loop_body N st h =
    Inr (st\<lparr>items := items st @
            [\<lparr>item_title = title h, page_number = page h - 1,
              parent = last (take (nat (level h)) (parent_stack st))\<rparr>],
          parent_stack := take (nat (level h)) (parent_stack st)
            @ replicate (nat (level h) - length (parent_stack st)) (last (parent_stack st))
            @ [Some (length (items st))]\<rparr>)"
proof -
  define k where "k = nat (level h)"
  define S where "S = parent_stack st"
  define popped where "popped = take k S"
  define padded where "padded = popped @ replicate (k - length S) (last S)"
  from assms(2) have k: "1 \<le> k" "int k = level h" by (simp_all add: k_def)
  from assms(3) k have ne: "popped \<noteq> []" by (simp add: popped_def S_def)
  have pop: "pop_loop (level h) S = Inr popped"
    using assms(2) by (simp add: pop_loop_closed popped_def k_def)
  have len_popped: "length popped = min (length S) k" by (simp add: popped_def)
  have pad: "pad_loop (level h) popped = Inr padded"
  proof (cases "k \<le> length S")
    case True
    then show ?thesis using k len_popped by (simp add: pad_loop_closed padded_def)
  next
    case False
    then have "popped = S" by (simp add: popped_def)
    with False ne k show ?thesis by (simp add: pad_loop_closed padded_def k_def)
  qed
  have "length padded = k" by (auto simp: padded_def len_popped)
  with k have upd: "update_stack (level h) b padded = Inr (padded @ [b])" for b
    by (simp add: update_stack_def)
  from assms(1) have rng: "\<not> (page h - 1 < 0 \<or> page h - 1 \<ge> int N)"
    by (auto simp: in_range_def)
  show ?thesis
    using rng pop pad upd ne
    by (simp add: loop_body_def Let_def add_outline_item_def S_def[symmetric]
        padded_def popped_def k_def)
qed

lemma for_loop_append:
  "for_loop N st (xs @ ys) =
     (case for_loop N st xs of Inl e \<Rightarrow> Inl e | Inr st' \<Rightarrow> for_loop N st' ys)"
  by (induction xs arbitrary: st) (auto split: sum.splits)

lemma for_loop_snoc:
  "for_loop N st (xs @ [h]) =
     (case for_loop N st xs of Inl e \<Rightarrow> Inl e | Inr st' \<Rightarrow> loop_body N st' h)"
  by (simp add: for_loop_append split: sum.splits)

lemma prev_level_snoc:
  "prev_level N (hs @ [h]) = (if in_range N h then level h else prev_level N hs)"
  by (simp add: prev_level_def attached_def)

lemma run_invariant:
  assumes "\<forall>g\<in>set hs. 1 \<le> level g"
  shows "\<exists>st. add_bookmarks_to_pdf err N hs = Inr st
    \<and> parent_stack st \<noteq> [] \<and> hd (parent_stack st) = None
    \<and> int (length (parent_stack st)) = prev_level N hs + 1
    \<and> last (parent_stack st) = newest (items st)
    \<and> map (\<lambda>i. (item_title i, page_number i)) (items st)
        = map (\<lambda>g. (title g, page g - 1)) (attached N hs)
    \<and> stderr st = err @ map warning_text (skipped N hs)"
  using assms
proof (induction hs rule: rev_induct)
  case Nil
  then show ?case
    by (simp add: add_bookmarks_to_pdf_def prev_level_def attached_def skipped_def newest_def)
next
  case (snoc h hs)
  then obtain st where st: "add_bookmarks_to_pdf err N hs = Inr st"
    "parent_stack st \<noteq> []" "hd (parent_stack st) = None"
    "int (length (parent_stack st)) = prev_level N hs + 1"
    "last (parent_stack st) = newest (items st)"
    "map (\<lambda>i. (item_title i, page_number i)) (items st)
       = map (\<lambda>g. (title g, page g - 1)) (attached N hs)"
    "stderr st = err @ map warning_text (skipped N hs)"
    by auto
  have run: "add_bookmarks_to_pdf err N (hs @ [h]) = loop_body N st h"
    using st(1) by (simp add: add_bookmarks_to_pdf_def for_loop_snoc)
  show ?case
  proof (cases "in_range N h")
    case False
    then show ?thesis
      using run st by (simp add: loop_body_skip prev_level_snoc attached_def skipped_def)
  next
    case True
    from snoc.prems have lvl: "1 \<le> level h" by simp
    show ?thesis
      using run st True lvl
      by (simp add: loop_body_attach [OF True lvl st(2)] prev_level_snoc attached_def
          skipped_def newest_def nat_le_iff min_def)
  qed
qed

text \<open>
  The stack between the two inner loops and the last statement of the body, for a level
  of at least 1 and a stack that is not empty.
\<close>

lemma stack_phases:
  assumes "1 \<le> lvl" and "S \<noteq> []"
  shows "pop_loop lvl S = Inr (take (nat lvl) S)"
    and "take (nat lvl) S \<noteq> []"
    and "hd (take (nat lvl) S) = hd S"
    and "pad_loop lvl (take (nat lvl) S)
         = Inr (take (nat lvl) S @ replicate (nat lvl - length S) (last S))"
    and "int (length (take (nat lvl) S @ replicate (nat lvl - length S) (last S))) = lvl"
proof -
  from assms show pop: "pop_loop lvl S = Inr (take (nat lvl) S)"
    by (simp add: pop_loop_closed)
  from assms show ne: "take (nat lvl) S \<noteq> []" by simp
  from assms show "hd (take (nat lvl) S) = hd S" by (cases S) (simp_all add: take_Cons')
  show "pad_loop lvl (take (nat lvl) S)
         = Inr (take (nat lvl) S @ replicate (nat lvl - length S) (last S))"
  proof (cases "nat lvl \<le> length S")
    case True
    with assms show ?thesis by (simp add: pad_loop_closed)
  next
    case False
    then have "take (nat lvl) S = S" by simp
    with False assms show ?thesis by (simp add: pad_loop_closed)
  qed
  from assms show "int (length (take (nat lvl) S @ replicate (nat lvl - length S) (last S))) = lvl"
    by (auto simp: min_def)
qed

section \<open>What a run does to the error stream and to the outline\<close>

text \<open>
  The error stream is only appended to and never read: two states that agree on the
  outline and on the stack go through the same iterations. The outline is only appended to.
\<close>

lemma loop_body_indep:
  assumes "items s = items s'" and "parent_stack s = parent_stack s'"
  shows "rel_sum (=) (\<lambda>a b. items a = items b \<and> parent_stack a = parent_stack b)
           (loop_body N s h) (loop_body N s' h)"
  using assms
  by (auto simp: loop_body_def Let_def add_outline_item_def split: sum.splits)

lemma for_loop_indep:
  assumes "items s = items s'" and "parent_stack s = parent_stack s'"
  shows "rel_sum (=) (\<lambda>a b. items a = items b \<and> parent_stack a = parent_stack b)
           (for_loop N s hs) (for_loop N s' hs)"
  using assms
proof (induction hs arbitrary: s s')
  case Nil
  then show ?case by simp
next
  case (Cons h hs)
  from loop_body_indep [OF Cons.prems, of N h] show ?case
    by (cases "loop_body N s h"; cases "loop_body N s' h") (auto intro: Cons.IH)
qed

lemma loop_body_stderr:
  "loop_body N st h = Inr st' \<Longrightarrow>
   stderr st' = stderr st @ map warning_text (skipped N [h])"
  by (auto simp: loop_body_def Let_def add_outline_item_def skipped_def in_range_def
      split: sum.splits if_splits)

lemma for_loop_stderr:
  "for_loop N st hs = Inr st' \<Longrightarrow>
   stderr st' = stderr st @ map warning_text (skipped N hs)"
proof (induction hs arbitrary: st)
  case Nil
  then show ?case by (simp add: skipped_def)
next
  case (Cons h hs)
  then obtain st1 where a: "loop_body N st h = Inr st1" and b: "for_loop N st1 hs = Inr st'"
    by (auto split: sum.splits)
  from loop_body_stderr [OF a] Cons.IH [OF b] show ?case
    by (simp add: skipped_def)
qed

lemma loop_body_items:
  "loop_body N st h = Inr st' \<Longrightarrow> \<exists>ys. items st' = items st @ ys"
  by (auto simp: loop_body_def Let_def add_outline_item_def split: sum.splits if_splits)

lemma for_loop_items:
  "for_loop N st hs = Inr st' \<Longrightarrow> \<exists>ys. items st' = items st @ ys"
proof (induction hs arbitrary: st)
  case Nil
  then show ?case by simp
next
  case (Cons h hs)
  then obtain st1 where a: "loop_body N st h = Inr st1" and b: "for_loop N st1 hs = Inr st'"
    by (auto split: sum.splits)
  from loop_body_items [OF a] Cons.IH [OF b] show ?case by auto
qed

section \<open>Text preparation\<close>

text \<open>
  C9: when the concatenated text is longer than 50000 characters, the text handed on is
  its first 50000 characters followed by the truncation marker, the 25 characters
  \<^verbatim>\<open>\n\n[Document truncated...]\<close>, so it has 50025 characters and differs from the
  concatenated text; otherwise it is the concatenated text itself, with no marker.
\<close>

theorem truncation_budget:
  "(length (concat_pages [] pages) > 50000 \<longrightarrow>
      document_text_for_llm pages
        = take 50000 (concat_pages [] pages) @ [10, 10] @ py ''[Document truncated...]''
      \<and> drop 50000 (document_text_for_llm pages)
        = [10, 10, 91, 68, 111, 99, 117, 109, 101, 110, 116, 32,
           116, 114, 117, 110, 99, 97, 116, 101, 100, 46, 46, 46, 93]
      \<and> length (document_text_for_llm pages) = 50025)
   \<and> (length (concat_pages [] pages) \<le> 50000 \<longrightarrow>
      document_text_for_llm pages = concat_pages [] pages)"
proof (intro conjI impI)
  assume long: "length (concat_pages [] pages) > 50000"
  then show cut: "document_text_for_llm pages
        = take 50000 (concat_pages [] pages) @ [10, 10] @ py ''[Document truncated...]''"
    by (simp add: document_text_for_llm_def truncate_text_def max_chars_def
        truncation_marker_def)
  from long have len: "length (take 50000 (concat_pages [] pages)) = 50000" by simp
  from len show "drop 50000 (document_text_for_llm pages)
        = [10, 10, 91, 68, 111, 99, 117, 109, 101, 110, 116, 32,
           116, 114, 117, 110, 99, 97, 116, 101, 100, 46, 46, 46, 93]"
    unfolding cut by (simp add: py_def)
  from len show "length (document_text_for_llm pages) = 50025"
    unfolding cut by (simp add: py_def)
next
  assume "length (concat_pages [] pages) \<le> 50000"
  then show "document_text_for_llm pages = concat_pages [] pages"
    by (simp add: document_text_for_llm_def truncate_text_def max_chars_def)
qed

theorem truncation_budget_witness:
  "length (concat_pages [] [(1, replicate 50000 97)]) > 50000
   \<and> document_text_for_llm [(1, replicate 50000 97)]
       = [10, 45, 45, 45, 32, 80, 65, 71, 69, 32, 49, 32, 45, 45, 45, 10]
         @ replicate 49984 97
         @ [10, 10, 91, 68, 111, 99, 117, 109, 101, 110, 116, 32,
            116, 114, 117, 110, 99, 97, 116, 101, 100, 46, 46, 46, 93]
   \<and> length (document_text_for_llm [(1, replicate 50000 97)]) = 50025
   \<and> length (concat_pages [] [(2, [97, 98, 99])]) \<le> 50000
   \<and> document_text_for_llm [(2, [97, 98, 99])]
       = [10, 45, 45, 45, 32, 80, 65, 71, 69, 32, 50, 32, 45, 45, 45, 10, 97, 98, 99]"
proof -
  have long: "length (concat_pages [] [(1, replicate 50000 97)]) > 50000"
    by (simp add: page_marker_def py_def str_int_def str_nat.simps)
  have short: "length (concat_pages [] [(2, [97, 98, 99])]) \<le> 50000"
    by (simp add: page_marker_def py_def str_int_def str_nat.simps)
  have cut: "take 50000 (concat_pages [] [(1, replicate 50000 97)])
             = [10, 45, 45, 45, 32, 80, 65, 71, 69, 32, 49, 32, 45, 45, 45, 10]
               @ replicate 49984 97"
    by (simp add: page_marker_def py_def str_int_def str_nat.simps)
  have whole: "concat_pages [] [(2, [97, 98, 99])]
             = [10, 45, 45, 45, 32, 80, 65, 71, 69, 32, 50, 32, 45, 45, 45, 10, 97, 98, 99]"
    by (simp add: page_marker_def py_def str_int_def str_nat.simps)
  from long short cut whole truncation_budget [of "[(1, replicate 50000 97)]"]
    truncation_budget [of "[(2, [97, 98, 99])]"]
  show ?thesis by (simp add: py_def)
qed

section \<open>The validation boundary\<close>

text \<open>
  An outline is accepted exactly when every heading of it satisfies the declared
  constraints; one heading that violates one rejects the outline.
\<close>

lemma outline_errors_empty_iff:
  "outline_errors i raw = [] \<longleftrightarrow> (\<forall>(t, l, p)\<in>set raw. Heading_errors t l p = [])"
  by (induction i raw rule: outline_errors.induct) auto

lemma Heading_errors_empty_iff:
  "Heading_errors t l p = [] \<longleftrightarrow> 1 \<le> l \<and> l \<le> 6 \<and> 1 \<le> p"
  by (auto simp: Heading_errors_def)

lemma validated_outline:
  assumes "DocumentOutline_validate raw = Inr hs"
  shows "\<forall>g\<in>set hs. 1 \<le> level g \<and> level g \<le> 6 \<and> 1 \<le> page g"
proof -
  from assms have ok: "outline_errors 0 raw = []"
    and hs: "hs = map (\<lambda>(t, l, p). \<lparr>title = t, level = l, page = p\<rparr>) raw"
    by (auto simp: DocumentOutline_validate_def split: if_splits)
  from ok have "\<forall>(t, l, p)\<in>set raw. 1 \<le> l \<and> l \<le> 6 \<and> 1 \<le> p"
    by (simp add: outline_errors_empty_iff Heading_errors_empty_iff)
  with hs show ?thesis by auto
qed

lemma rejected_outline:
  assumes "(t, l, p) \<in> set raw" and "Heading_errors t l p \<noteq> []"
  shows "\<exists>e. DocumentOutline_validate raw = Inl (ValidationError e)
             \<and> parse_outline raw = Inl (RuntimeError (ValidationError e))"
proof -
  from assms have "outline_errors 0 raw \<noteq> []"
    by (auto simp: outline_errors_empty_iff intro!: bexI [of _ "(t, l, p)"])
  then show ?thesis
    by (simp add: DocumentOutline_validate_def parse_outline_def)
qed

text \<open>
  C8, as the source has it: the title of a \<^verbatim>\<open>Heading\<close> is any text, the empty string
  included. Whether a heading is accepted depends on its level and its page only: it is
  accepted exactly when the level is between 1 and 6 and the page is at least 1, and a
  heading with the empty title is accepted whenever the same heading with any other
  title is.
\<close>

theorem title_unconstrained:
  "(\<exists>h. Heading_validate t l p = Inr h) = (1 \<le> l \<and> l \<le> 6 \<and> 1 \<le> p)
   \<and> (\<exists>h. Heading_validate [] l p = Inr h) = (\<exists>h. Heading_validate t l p = Inr h)"
  by (auto simp add: Heading_validate_def Heading_errors_def)

text \<open>C8 as stated fails: the heading with the empty title, level 1 and page 1 is accepted.\<close>

theorem empty_title_accepted:
  "Heading_validate [] 1 1 = Inr \<lparr>title = [], level = 1, page = 1\<rparr>"
  by (simp add: Heading_validate_def Heading_errors_def)

section \<open>Levels outside the declared range\<close>

text \<open>
  C5, as the source has it: the data model accepts the levels 1 to 6 only. A heading
  with a level greater than 6 is rejected by the validation, and the outline that holds
  it is rejected as a whole (the failure is wrapped in a \<^verbatim>\<open>RuntimeError\<close>). The
  builder itself puts no upper bound on the level: after an outline of positive levels it
  attaches exactly one node for an in-range heading of any positive level, without
  failing.
\<close>

theorem level_range_enforced_by_validation:
  "(1 \<le> p \<longrightarrow> (\<exists>h. Heading_validate t l p = Inr h) = (1 \<le> l \<and> l \<le> 6))
   \<and> (6 < l \<and> (t, l, p) \<in> set raw \<longrightarrow>
        (\<exists>e. DocumentOutline_validate raw = Inl (ValidationError e)
           \<and> parse_outline raw = Inl (RuntimeError (ValidationError e))))
   \<and> ((\<forall>g\<in>set before. 1 \<le> level g) \<and> 1 \<le> level h \<and> in_range N h \<longrightarrow>
        (\<exists>st par stack.
           add_bookmarks_to_pdf err N before = Inr st
           \<and> add_bookmarks_to_pdf err N (before @ [h])
               = Inr (st\<lparr>items := items st @
                          [\<lparr>item_title = title h, page_number = page h - 1, parent = par\<rparr>],
                        parent_stack := stack\<rparr>)))"
proof (intro conjI impI)
  assume "1 \<le> p"
  then show "(\<exists>h. Heading_validate t l p = Inr h) = (1 \<le> l \<and> l \<le> 6)"
    by (auto simp: Heading_validate_def Heading_errors_def)
next
  assume a: "6 < l \<and> (t, l, p) \<in> set raw"
  then have "Heading_errors t l p \<noteq> []" by (simp add: Heading_errors_def)
  with a show "\<exists>e. DocumentOutline_validate raw = Inl (ValidationError e)
           \<and> parse_outline raw = Inl (RuntimeError (ValidationError e))"
    by (intro rejected_outline) simp_all
next
  assume a: "(\<forall>g\<in>set before. 1 \<le> level g) \<and> 1 \<le> level h \<and> in_range N h"
  then obtain st where st: "add_bookmarks_to_pdf err N before = Inr st" "parent_stack st \<noteq> []"
    using run_invariant [of before err N] by blast
  from a have lvl: "1 \<le> level h" and rng: "in_range N h" by simp_all
  have "add_bookmarks_to_pdf err N (before @ [h]) = loop_body N st h"
    using st(1) by (simp add: add_bookmarks_to_pdf_def for_loop_snoc)
  with st(1) loop_body_attach [OF rng lvl st(2)]
  show "\<exists>st par stack.
           add_bookmarks_to_pdf err N before = Inr st
           \<and> add_bookmarks_to_pdf err N (before @ [h])
               = Inr (st\<lparr>items := items st @
                          [\<lparr>item_title = title h, page_number = page h - 1, parent = par\<rparr>],
                        parent_stack := stack\<rparr>)"
    by auto
qed

theorem level_range_enforced_by_validation_witness:
  "(\<exists>h. Heading_validate (py ''A'') 6 1 = Inr h)
   \<and> \<not> (\<exists>h. Heading_validate (py ''A'') 7 1 = Inr h)
   \<and> (\<exists>e. DocumentOutline_validate [(py ''A'', 1, 1), (py ''B'', 7, 1)] = Inl (ValidationError e)
        \<and> parse_outline [(py ''A'', 1, 1), (py ''B'', 7, 1)] = Inl (RuntimeError (ValidationError e)))
   \<and> (\<exists>st par stack.
         add_bookmarks_to_pdf [] 3 [\<lparr>title = py ''A'', level = 1, page = 1\<rparr>] = Inr st
         \<and> add_bookmarks_to_pdf [] 3
              ([\<lparr>title = py ''A'', level = 1, page = 1\<rparr>] @ [\<lparr>title = py ''B'', level = 7, page = 1\<rparr>])
            = Inr (st\<lparr>items := items st @
                       [\<lparr>item_title = py ''B'', page_number = 0, parent = par\<rparr>],
                     parent_stack := stack\<rparr>))"
  using level_range_enforced_by_validation [of 1 "py ''A''" 6]
    level_range_enforced_by_validation [of 1 "py ''A''" 7]
    level_range_enforced_by_validation [of _ "py ''B''" 7 "[(py ''A'', 1, 1), (py ''B'', 7, 1)]"
      "[\<lparr>title = py ''A'', level = 1, page = 1\<rparr>]"
      "\<lparr>title = py ''B'', level = 7, page = 1\<rparr>" 3 "[]"]
  by (simp add: in_range_def)

text \<open>
  C5 as stated fails: one heading of level 7 makes the validation reject the whole
  outline.
\<close>

theorem level_seven_rejects_batch:
  "DocumentOutline_validate [(py ''A'', 1, 1), (py ''B'', 7, 1)]
   = Inl (ValidationError [(1, ''level'', less_than_equal)])"
  by (simp add: DocumentOutline_validate_def Heading_errors_def)

text \<open>
  C6, as the source has it: a heading whose level is 0 or negative violates the
  constraint \<open>ge=1\<close>; the validation rejects it, and with it the outline that holds it.
  The level is not clamped to 1, and no node is produced: \<^verbatim>\<open>process_pdf\<close> fails with
  the validation error, wrapped in a \<^verbatim>\<open>RuntimeError\<close>, and returns neither an outline
  nor a state of the builder, whatever the document and the other headings are.
\<close>

theorem nonpositive_level_rejected:
  "l \<le> 0 \<longrightarrow>
     (\<exists>es. Heading_validate t l p = Inl ((''level'', greater_than_equal) # es))
     \<and> ((t, l, p) \<in> set raw \<longrightarrow>
          (\<exists>e. DocumentOutline_validate raw = Inl (ValidationError e)
             \<and> parse_outline raw = Inl (RuntimeError (ValidationError e))
             \<and> process_pdf err N raw = Inl (RuntimeError (ValidationError e)))
          \<and> (\<forall>outline st. process_pdf err N raw \<noteq> Inr (outline, st)))"
proof (intro impI conjI)
  assume "l \<le> 0"
  then show "\<exists>es. Heading_validate t l p = Inl ((''level'', greater_than_equal) # es)"
    by (simp add: Heading_validate_def Heading_errors_def)
next
  assume "l \<le> 0" and "(t, l, p) \<in> set raw"
  moreover from \<open>l \<le> 0\<close> have "Heading_errors t l p \<noteq> []" by (simp add: Heading_errors_def)
  ultimately obtain e where e: "DocumentOutline_validate raw = Inl (ValidationError e)"
    "parse_outline raw = Inl (RuntimeError (ValidationError e))"
    using rejected_outline by blast
  then have "process_pdf err N raw = Inl (RuntimeError (ValidationError e))"
    by (simp add: process_pdf_def)
  with e show "\<exists>e. DocumentOutline_validate raw = Inl (ValidationError e)
             \<and> parse_outline raw = Inl (RuntimeError (ValidationError e))
             \<and> process_pdf err N raw = Inl (RuntimeError (ValidationError e))"
    by blast
  from e(2) show "\<forall>outline st. process_pdf err N raw \<noteq> Inr (outline, st)"
    by (simp add: process_pdf_def)
qed

theorem nonpositive_level_rejected_witness:
  "(\<exists>es. Heading_validate (py ''A'') 0 1 = Inl ((''level'', greater_than_equal) # es))
   \<and> DocumentOutline_validate [(py ''A'', 0, 1), (py ''B'', 1, 1)]
       = Inl (ValidationError [(0, ''level'', greater_than_equal)])
   \<and> parse_outline [(py ''A'', 0, 1), (py ''B'', 1, 1)]
       = Inl (RuntimeError (ValidationError [(0, ''level'', greater_than_equal)]))
   \<and> process_pdf [] 5 [(py ''A'', 0, 1), (py ''B'', 1, 1)]
       = Inl (RuntimeError (ValidationError [(0, ''level'', greater_than_equal)]))
   \<and> (\<exists>outline st. process_pdf [] 5 [(py ''A'', 1, 1), (py ''B'', 1, 1)] = Inr (outline, st)
         \<and> length (items st) = 2)"
proof -
  have v: "DocumentOutline_validate [(py ''A'', 0, 1), (py ''B'', 1, 1)]
       = Inl (ValidationError [(0, ''level'', greater_than_equal)])"
    by (simp add: DocumentOutline_validate_def Heading_errors_def)
  have ok: "\<exists>outline st. process_pdf [] 5 [(py ''A'', 1, 1), (py ''B'', 1, 1)] = Inr (outline, st)
         \<and> length (items st) = 2"
    by (simp add: process_pdf_def parse_outline_def DocumentOutline_validate_def
        Heading_errors_def add_bookmarks_to_pdf_def loop_body_def pop_loop_closed
        pad_loop_closed update_stack_def add_outline_item_def Let_def)
  from v ok nonpositive_level_rejected
    [of 0 "py ''A''" 1 "[(py ''A'', 0, 1), (py ''B'', 1, 1)]" "[]" 5]
  show ?thesis by auto
qed

text \<open>
  C6 as stated fails: level 0 is rejected by the validation of the heading and of the
  outline, and \<^verbatim>\<open>process_pdf\<close> fails on it. The builder does not clamp either: handed a
  heading of level 0 it nests the following level-1 heading under it, which a level-1
  heading would not, and handed a negative level it pops the empty stack and raises.
\<close>

theorem level_zero_not_clamped:
  "Heading_validate (py ''A'') 0 1 = Inl [(''level'', greater_than_equal)]
   \<and> DocumentOutline_validate [(py ''A'', 0, 1)]
       = Inl (ValidationError [(0, ''level'', greater_than_equal)])
   \<and> process_pdf [] 5 [(py ''A'', 0, 1)]
       = Inl (RuntimeError (ValidationError [(0, ''level'', greater_than_equal)]))
   \<and> outline_of (add_bookmarks_to_pdf [] 5
        [\<lparr>title = py ''A'', level = 0, page = 1\<rparr>, \<lparr>title = py ''B'', level = 1, page = 1\<rparr>])
     \<noteq> outline_of (add_bookmarks_to_pdf [] 5
        [\<lparr>title = py ''A'', level = 1, page = 1\<rparr>, \<lparr>title = py ''B'', level = 1, page = 1\<rparr>])
   \<and> add_bookmarks_to_pdf [] 5 [\<lparr>title = py ''A'', level = - 1, page = 1\<rparr>] = Inl IndexError"
  by (simp add: Heading_validate_def DocumentOutline_validate_def Heading_errors_def
      process_pdf_def parse_outline_def
      outline_of_def add_bookmarks_to_pdf_def loop_body_def pop_loop_closed pad_loop_closed
      update_stack_def add_outline_item_def Let_def)

section \<open>Headings whose page is out of range\<close>

text \<open>
  C3: a heading whose page is below 1 or above the page count produces no node: the
  iteration leaves the outline and the stack as they are and prints exactly one warning,
  the text \<^verbatim>\<open>Warning: Skipping heading '<title>' - page <page> out of range\<close>. The
  loop continues: the run on the outline with the heading yields the outline (or the
  error) of the run without it, and its error stream is the one of the run without it
  with that single warning in the heading's place.
\<close>

theorem out_of_range_heading_skipped:
  assumes "page h < 1 \<or> int N < page h"
  shows "loop_body N st h = Inr (st\<lparr>stderr := stderr st @ [warning_text h]\<rparr>)
    \<and> outline_of (add_bookmarks_to_pdf err N (before @ h # after))
        = outline_of (add_bookmarks_to_pdf err N (before @ after))
    \<and> (\<forall>s. add_bookmarks_to_pdf err N (before @ h # after) = Inr s \<longrightarrow>
          (\<exists>s'. add_bookmarks_to_pdf err N (before @ after) = Inr s'
             \<and> items s = items s' \<and> parent_stack s = parent_stack s'
             \<and> stderr s' = err @ map warning_text (skipped N before)
                              @ map warning_text (skipped N after)
             \<and> stderr s = err @ map warning_text (skipped N before)
                             @ [warning_text h] @ map warning_text (skipped N after)))"
proof -
  from assms have out: "\<not> in_range N h" by (auto simp: in_range_def)
  then have body: "loop_body N st h = Inr (st\<lparr>stderr := stderr st @ [warning_text h]\<rparr>)" for st
    by (rule loop_body_skip)
  define init where "init = \<lparr>items = [], parent_stack = [None], stderr = err\<rparr>"
  define R where "R = (\<lambda>(a :: builder_state) (b :: builder_state). items a = items b \<and> parent_stack a = parent_stack b)"
  have rel: "rel_sum (=) R (for_loop N init (before @ h # after)) (for_loop N init (before @ after))"
  proof (cases "for_loop N init before")
    case (Inl e)
    then show ?thesis by (simp add: for_loop_append)
  next
    case (Inr st1)
    have "rel_sum (=) R (for_loop N (st1\<lparr>stderr := stderr st1 @ [warning_text h]\<rparr>) after)
            (for_loop N st1 after)"
      unfolding R_def by (rule for_loop_indep) simp_all
    with Inr show ?thesis by (simp add: for_loop_append body)
  qed
  have same: "outline_of (add_bookmarks_to_pdf err N (before @ h # after))
        = outline_of (add_bookmarks_to_pdf err N (before @ after))"
    using rel
    by (cases "for_loop N init (before @ h # after)"; cases "for_loop N init (before @ after)")
       (simp_all add: outline_of_def add_bookmarks_to_pdf_def init_def [symmetric] R_def)
  have logs: "\<exists>s'. add_bookmarks_to_pdf err N (before @ after) = Inr s'
             \<and> items s = items s' \<and> parent_stack s = parent_stack s'
             \<and> stderr s' = err @ map warning_text (skipped N before)
                              @ map warning_text (skipped N after)
             \<and> stderr s = err @ map warning_text (skipped N before)
                             @ [warning_text h] @ map warning_text (skipped N after)"
    if run: "add_bookmarks_to_pdf err N (before @ h # after) = Inr s" for s
  proof -
    from run have r: "for_loop N init (before @ h # after) = Inr s"
      by (simp add: add_bookmarks_to_pdf_def init_def)
    with rel obtain s' where s': "for_loop N init (before @ after) = Inr s'" "R s s'"
      by (cases "for_loop N init (before @ after)") auto
    from for_loop_stderr [OF r] out
    have "stderr s = err @ map warning_text (skipped N before)
                             @ [warning_text h] @ map warning_text (skipped N after)"
      by (simp add: init_def skipped_def)
    moreover from for_loop_stderr [OF s'(1)]
    have "stderr s' = err @ map warning_text (skipped N before)
                              @ map warning_text (skipped N after)"
      by (simp add: init_def skipped_def)
    ultimately show ?thesis
      using s' by (simp add: add_bookmarks_to_pdf_def init_def R_def)
  qed
  from body same logs show ?thesis by blast
qed

theorem out_of_range_heading_skipped_witness:
  "(99 :: int) > 5
   \<and> add_bookmarks_to_pdf [] 5 [\<lparr>title = py ''Ghost'', level = 2, page = 99\<rparr>]
       = Inr \<lparr>items = [], parent_stack = [None],
              stderr = [py ''Warning: Skipping heading 'Ghost' - page 99 out of range'']\<rparr>
   \<and> outline_of (add_bookmarks_to_pdf [] 5
        ([\<lparr>title = py ''A'', level = 1, page = 1\<rparr>]
         @ \<lparr>title = py ''Ghost'', level = 2, page = 99\<rparr>
         # [\<lparr>title = py ''B'', level = 2, page = 2\<rparr>]))
     = Inr [\<lparr>item_title = py ''A'', page_number = 0, parent = None\<rparr>,
            \<lparr>item_title = py ''B'', page_number = 1, parent = Some 0\<rparr>]"
proof -
  let ?ghost = "\<lparr>title = py ''Ghost'', level = 2, page = 99\<rparr>"
  let ?init = "\<lparr>items = [], parent_stack = [None], stderr = []\<rparr>"
  have out: "page ?ghost < 1 \<or> int 5 < page ?ghost" by simp
  from out_of_range_heading_skipped [OF out, of ?init]
  have one: "add_bookmarks_to_pdf [] 5 [?ghost]
       = Inr \<lparr>items = [], parent_stack = [None],
              stderr = [py ''Warning: Skipping heading 'Ghost' - page 99 out of range'']\<rparr>"
    by (simp add: add_bookmarks_to_pdf_def warning_text_def py_def str_int_def str_nat.simps)
  have without: "outline_of (add_bookmarks_to_pdf [] 5
        ([\<lparr>title = py ''A'', level = 1, page = 1\<rparr>] @ [\<lparr>title = py ''B'', level = 2, page = 2\<rparr>]))
     = Inr [\<lparr>item_title = py ''A'', page_number = 0, parent = None\<rparr>,
            \<lparr>item_title = py ''B'', page_number = 1, parent = Some 0\<rparr>]"
    by (simp add: outline_of_def add_bookmarks_to_pdf_def loop_body_def pop_loop_closed
        pad_loop_closed update_stack_def add_outline_item_def Let_def)
  from out_of_range_heading_skipped [OF out, of ?init "[]"
      "[\<lparr>title = py ''A'', level = 1, page = 1\<rparr>]" "[\<lparr>title = py ''B'', level = 2, page = 2\<rparr>]"]
    one without
  show ?thesis by simp
qed

section \<open>Failure\<close>

text \<open>
  C4, as the source has it: the builder never raises on an outline of headings whose
  levels are at least 1, which is every outline that passed the validation, whatever the
  pages of the headings and whatever the page count; malformed entries become warnings.
  No page count makes it fail: on a document of 0 pages it skips every heading with one
  warning each and succeeds with an empty outline.
\<close>

theorem builder_succeeds_for_any_page_count:
  "((\<forall>g\<in>set hs. 1 \<le> level g) \<longrightarrow> (\<exists>st. add_bookmarks_to_pdf err N hs = Inr st))
   \<and> (DocumentOutline_validate raw = Inr hs \<longrightarrow> (\<exists>st. add_bookmarks_to_pdf err N hs = Inr st))
   \<and> add_bookmarks_to_pdf err 0 hs
       = Inr \<lparr>items = [], parent_stack = [None], stderr = err @ map warning_text hs\<rparr>"
proof -
  have a: "\<exists>st. add_bookmarks_to_pdf err N hs = Inr st" if "\<forall>g\<in>set hs. 1 \<le> level g"
    using run_invariant [OF that, of err N] by blast
  have b: "\<exists>st. add_bookmarks_to_pdf err N hs = Inr st" if "DocumentOutline_validate raw = Inr hs"
    using validated_outline [OF that] a by blast
  have c: "for_loop 0 st hs = Inr (st\<lparr>stderr := stderr st @ map warning_text hs\<rparr>)" for st
  proof (induction hs arbitrary: st)
    case Nil
    then show ?case by simp
  next
    case (Cons h hs)
    have "\<not> in_range 0 h" by (simp add: in_range_def)
    then show ?case by (simp add: loop_body_skip Cons.IH)
  qed
  from a b c [of "\<lparr>items = [], parent_stack = [None], stderr = err\<rparr>"]
  show ?thesis by (simp add: add_bookmarks_to_pdf_def)
qed

theorem builder_succeeds_for_any_page_count_witness:
  "list_all (\<lambda>g. 1 \<le> level g)
     [\<lparr>title = py ''A'', level = 1, page = 1\<rparr>, \<lparr>title = py ''B'', level = 4, page = 9\<rparr>]
   \<and> DocumentOutline_validate [(py ''A'', 1, 1), (py ''B'', 4, 9)]
       = Inr [\<lparr>title = py ''A'', level = 1, page = 1\<rparr>, \<lparr>title = py ''B'', level = 4, page = 9\<rparr>]
   \<and> (\<exists>st. add_bookmarks_to_pdf [] 3
         [\<lparr>title = py ''A'', level = 1, page = 1\<rparr>, \<lparr>title = py ''B'', level = 4, page = 9\<rparr>]
        = Inr st)"
proof -
  have v: "DocumentOutline_validate [(py ''A'', 1, 1), (py ''B'', 4, 9)]
       = Inr [\<lparr>title = py ''A'', level = 1, page = 1\<rparr>, \<lparr>title = py ''B'', level = 4, page = 9\<rparr>]"
    by (simp add: DocumentOutline_validate_def Heading_errors_def)
  from v builder_succeeds_for_any_page_count
    [of "[\<lparr>title = py ''A'', level = 1, page = 1\<rparr>, \<lparr>title = py ''B'', level = 4, page = 9\<rparr>]"
        "[]" 3 "[(py ''A'', 1, 1), (py ''B'', 4, 9)]"]
  show ?thesis by simp
qed

text \<open>
  C4 as stated fails: with page count 0 and a non-empty outline the builder does not
  raise; it prints the warning and returns normally.
\<close>

theorem no_failure_on_empty_document:
  "add_bookmarks_to_pdf [] 0 [\<lparr>title = py ''A'', level = 1, page = 1\<rparr>]
   = Inr \<lparr>items = [], parent_stack = [None],
          stderr = [py ''Warning: Skipping heading 'A' - page 1 out of range'']\<rparr>"
  by (simp add: add_bookmarks_to_pdf_def loop_body_def warning_text_def py_def str_int_def
      str_nat.simps)

section \<open>The ancestor stack\<close>

text \<open>
  C10: on an outline whose levels are all at least 1, the state after any number \<open>k\<close>
  of iterations (the run on the first \<open>k\<close> headings, from which the loop goes on over
  the others) has a stack that is not empty and whose first entry is the \<^verbatim>\<open>None\<close> the
  stack started with. Its length is one more than the level of the heading attached last;
  so right after a node is attached at level \<open>L\<close> the stack has exactly \<open>L + 1\<close>
  entries. When the next heading is in range, popping succeeds and leaves a stack that is
  not empty (the parent read from its top is defined), padding succeeds and leaves exactly
  \<^verbatim>\<open>heading.level\<close> entries, and the last statement therefore appends: the branch
  that overwrites \<^verbatim>\<open>parent_stack[heading.level]\<close> is never taken.
\<close>

theorem stack_never_empty:
  assumes "\<forall>g\<in>set hs. 1 \<le> level g" and "k \<le> length hs"
  shows "\<exists>st. add_bookmarks_to_pdf err N (take k hs) = Inr st
    \<and> for_loop N st (drop k hs) = add_bookmarks_to_pdf err N hs
    \<and> parent_stack st \<noteq> [] \<and> hd (parent_stack st) = None
    \<and> int (length (parent_stack st)) = prev_level N (take k hs) + 1
    \<and> (0 < k \<and> in_range N (hs ! (k - 1)) \<longrightarrow>
         int (length (parent_stack st)) = level (hs ! (k - 1)) + 1)
    \<and> (k < length hs \<and> in_range N (hs ! k) \<longrightarrow>
         (\<exists>popped padded.
            pop_loop (level (hs ! k)) (parent_stack st) = Inr popped
            \<and> popped \<noteq> [] \<and> hd popped = None
            \<and> pad_loop (level (hs ! k)) popped = Inr padded
            \<and> int (length padded) = level (hs ! k)
            \<and> (\<forall>b. update_stack (level (hs ! k)) b padded = Inr (padded @ [b]))))"
proof -
  from assms(1) have "\<forall>g\<in>set (take k hs). 1 \<le> level g"
    by (meson in_set_takeD)
  from run_invariant [OF this, of err N]
  obtain st where st: "add_bookmarks_to_pdf err N (take k hs) = Inr st"
    "parent_stack st \<noteq> []" "hd (parent_stack st) = None"
    "int (length (parent_stack st)) = prev_level N (take k hs) + 1"
    by blast
  have "add_bookmarks_to_pdf err N hs
        = for_loop N \<lparr>items = [], parent_stack = [None], stderr = err\<rparr> (take k hs @ drop k hs)"
    by (simp add: add_bookmarks_to_pdf_def)
  also have "\<dots> = for_loop N st (drop k hs)"
    using st(1) unfolding for_loop_append by (simp add: add_bookmarks_to_pdf_def)
  finally have link: "for_loop N st (drop k hs) = add_bookmarks_to_pdf err N hs" by simp
  have after: "int (length (parent_stack st)) = level (hs ! (k - 1)) + 1"
    if "0 < k \<and> in_range N (hs ! (k - 1))"
  proof -
    from that assms(2) have "take k hs = take (k - 1) hs @ [hs ! (k - 1)]"
      by (metis Suc_pred' less_le_trans Suc_le_lessD take_Suc_conv_app_nth Suc_le_eq)
    with that st(4) show ?thesis by (simp add: prev_level_snoc)
  qed
  have before: "\<exists>popped padded.
            pop_loop (level (hs ! k)) (parent_stack st) = Inr popped
            \<and> popped \<noteq> [] \<and> hd popped = None
            \<and> pad_loop (level (hs ! k)) popped = Inr padded
            \<and> int (length padded) = level (hs ! k)
            \<and> (\<forall>b. update_stack (level (hs ! k)) b padded = Inr (padded @ [b]))"
    if "k < length hs \<and> in_range N (hs ! k)"
  proof -
    from that assms(1) have lvl: "1 \<le> level (hs ! k)" by simp
    note ph = stack_phases [OF lvl st(2)]
    from ph(5) have "\<forall>b. update_stack (level (hs ! k)) b
        (take (nat (level (hs ! k))) (parent_stack st)
         @ replicate (nat (level (hs ! k)) - length (parent_stack st)) (last (parent_stack st)))
      = Inr ((take (nat (level (hs ! k))) (parent_stack st)
         @ replicate (nat (level (hs ! k)) - length (parent_stack st)) (last (parent_stack st))) @ [b])"
      unfolding update_stack_def by simp
    with ph st(3) show ?thesis by metis
  qed
  from st link after before show ?thesis by blast
qed

theorem stack_never_empty_witness:
  "list_all (\<lambda>g. 1 \<le> level g)
     [\<lparr>title = py ''A'', level = 1, page = 1\<rparr>, \<lparr>title = py ''B'', level = 3, page = 2\<rparr>]
   \<and> (\<exists>st. add_bookmarks_to_pdf [] 3 [\<lparr>title = py ''A'', level = 1, page = 1\<rparr>] = Inr st
        \<and> parent_stack st \<noteq> [] \<and> hd (parent_stack st) = None
        \<and> int (length (parent_stack st)) = 2
        \<and> (\<exists>popped padded.
              pop_loop 3 (parent_stack st) = Inr popped
              \<and> popped \<noteq> [] \<and> hd popped = None
              \<and> pad_loop 3 popped = Inr padded
              \<and> int (length padded) = 3
              \<and> (\<forall>b. update_stack 3 b padded = Inr (padded @ [b]))))"
  using stack_never_empty
    [of "[\<lparr>title = py ''A'', level = 1, page = 1\<rparr>, \<lparr>title = py ''B'', level = 3, page = 2\<rparr>]"
        1 "[]" 3]
  by (simp add: in_range_def) blast

section \<open>Level skips\<close>

text \<open>
  C2: let a heading \<open>h\<close>, in range, have a level that exceeds by more than one the
  level of the heading attached last before it (0 when there is none), in an outline of
  levels at least 1. The builder does not fail. The iteration for \<open>h\<close> creates exactly
  one item, whose parent is the top of the stack: the item created last, which is the
  node of that earlier heading and the deepest ancestor there is (the outline root when
  there is none). The stack is padded with repeated references to that same ancestor up
  to the level of \<open>h\<close>, and the new item is pushed on top. No other item is created: the
  items of the whole run are the in-range headings, one each, in order, and the item of
  \<open>h\<close> keeps its parent.
\<close>

theorem level_skip_attaches_under_deepest_ancestor:
  assumes "\<forall>g\<in>set (before @ h # after). 1 \<le> level g"
    and "in_range N h"
    and "prev_level N before + 1 < level h"
  shows "\<exists>st res.
      add_bookmarks_to_pdf err N before = Inr st
    \<and> last (parent_stack st) = newest (items st)
    \<and> int (length (parent_stack st)) = prev_level N before + 1
    \<and> map (\<lambda>i. (item_title i, page_number i)) (items st)
        = map (\<lambda>g. (title g, page g - 1)) (attached N before)
    \<and> add_bookmarks_to_pdf err N (before @ [h])
        = Inr (st\<lparr>items := items st @
                   [\<lparr>item_title = title h, page_number = page h - 1,
                     parent = newest (items st)\<rparr>],
                 parent_stack := parent_stack st
                   @ replicate (nat (level h) - length (parent_stack st)) (newest (items st))
                   @ [Some (length (items st))]\<rparr>)
    \<and> add_bookmarks_to_pdf err N (before @ h # after) = Inr res
    \<and> map (\<lambda>i. (item_title i, page_number i)) (items res)
        = map (\<lambda>g. (title g, page g - 1)) (attached N (before @ h # after))
    \<and> items res ! length (items st)
        = \<lparr>item_title = title h, page_number = page h - 1, parent = newest (items st)\<rparr>"
proof -
  from assms(1) have b: "\<forall>g\<in>set before. 1 \<le> level g" and lvl: "1 \<le> level h" by simp_all
  from run_invariant [OF b, of err N]
  obtain st where st: "add_bookmarks_to_pdf err N before = Inr st"
    "parent_stack st \<noteq> []"
    "int (length (parent_stack st)) = prev_level N before + 1"
    "last (parent_stack st) = newest (items st)"
    "map (\<lambda>i. (item_title i, page_number i)) (items st)
       = map (\<lambda>g. (title g, page g - 1)) (attached N before)"
    by blast
  define st' where "st' = st\<lparr>items := items st @
                   [\<lparr>item_title = title h, page_number = page h - 1,
                     parent = newest (items st)\<rparr>],
                 parent_stack := parent_stack st
                   @ replicate (nat (level h) - length (parent_stack st)) (newest (items st))
                   @ [Some (length (items st))]\<rparr>"
  from st(3) assms(3) have long: "length (parent_stack st) < nat (level h)" by simp
  then have tk: "take (nat (level h)) (parent_stack st) = parent_stack st" by simp
  have "add_bookmarks_to_pdf err N (before @ [h]) = loop_body N st h"
    using st(1) by (simp add: add_bookmarks_to_pdf_def for_loop_snoc)
  also have "\<dots> = Inr st'"
    unfolding loop_body_attach [OF assms(2) lvl st(2)] tk st(4) st'_def ..
  finally have one: "add_bookmarks_to_pdf err N (before @ [h]) = Inr st'" .
  from run_invariant [OF assms(1), of err N]
  obtain res where res: "add_bookmarks_to_pdf err N (before @ h # after) = Inr res"
    "map (\<lambda>i. (item_title i, page_number i)) (items res)
       = map (\<lambda>g. (title g, page g - 1)) (attached N (before @ h # after))"
    by blast
  have "add_bookmarks_to_pdf err N (before @ h # after)
        = for_loop N \<lparr>items = [], parent_stack = [None], stderr = err\<rparr> ((before @ [h]) @ after)"
    by (simp add: add_bookmarks_to_pdf_def)
  also have "\<dots> = for_loop N st' after"
    using one unfolding for_loop_append [of _ _ "before @ [h]"]
    by (simp add: add_bookmarks_to_pdf_def)
  finally have "for_loop N st' after = Inr res" using res(1) by simp
  from for_loop_items [OF this] obtain ys where "items res = items st' @ ys" ..
  then have "items res ! length (items st)
        = \<lparr>item_title = title h, page_number = page h - 1, parent = newest (items st)\<rparr>"
    by (simp add: st'_def nth_append)
  with st one res show ?thesis unfolding st'_def by blast
qed

theorem level_skip_attaches_under_deepest_ancestor_witness:
  "list_all (\<lambda>g. 1 \<le> level g)
     [\<lparr>title = py ''A'', level = 1, page = 1\<rparr>, \<lparr>title = py ''B'', level = 4, page = 2\<rparr>,
      \<lparr>title = py ''C'', level = 2, page = 3\<rparr>]
   \<and> in_range 3 \<lparr>title = py ''B'', level = 4, page = 2\<rparr>
   \<and> prev_level 3 [\<lparr>title = py ''A'', level = 1, page = 1\<rparr>] + 1
       < level \<lparr>title = py ''B'', level = 4, page = 2\<rparr>
   \<and> add_bookmarks_to_pdf [] 3
        [\<lparr>title = py ''A'', level = 1, page = 1\<rparr>, \<lparr>title = py ''B'', level = 4, page = 2\<rparr>]
       = Inr \<lparr>items = [\<lparr>item_title = py ''A'', page_number = 0, parent = None\<rparr>,
                       \<lparr>item_title = py ''B'', page_number = 1, parent = Some 0\<rparr>],
              parent_stack = [None, Some 0, Some 0, Some 0, Some 1], stderr = []\<rparr>
   \<and> (\<exists>res. add_bookmarks_to_pdf [] 3
        [\<lparr>title = py ''A'', level = 1, page = 1\<rparr>, \<lparr>title = py ''B'', level = 4, page = 2\<rparr>,
         \<lparr>title = py ''C'', level = 2, page = 3\<rparr>] = Inr res
      \<and> map item_title (items res) = [py ''A'', py ''B'', py ''C'']
      \<and> items res ! 1 = \<lparr>item_title = py ''B'', page_number = 1, parent = Some 0\<rparr>)"
proof -
  let ?A = "\<lparr>title = py ''A'', level = 1, page = 1\<rparr>"
  let ?B = "\<lparr>title = py ''B'', level = 4, page = 2\<rparr>"
  let ?C = "\<lparr>title = py ''C'', level = 2, page = 3\<rparr>"
  have all: "\<forall>g\<in>set ([?A] @ ?B # [?C]). 1 \<le> level g" by simp
  have rng: "in_range 3 ?B" by (simp add: in_range_def)
  have skip: "prev_level 3 [?A] + 1 < level ?B"
    by (simp add: prev_level_def attached_def in_range_def)
  have first: "add_bookmarks_to_pdf [] 3 [?A]
      = Inr \<lparr>items = [\<lparr>item_title = py ''A'', page_number = 0, parent = None\<rparr>],
              parent_stack = [None, Some 0], stderr = []\<rparr>"
    by (simp add: add_bookmarks_to_pdf_def loop_body_def pop_loop_closed pad_loop_closed
        update_stack_def add_outline_item_def Let_def)
  from level_skip_attaches_under_deepest_ancestor [OF all rng skip, of "[]"] first
  obtain res where
    two: "add_bookmarks_to_pdf [] 3 ([?A] @ [?B])
       = Inr \<lparr>items = [\<lparr>item_title = py ''A'', page_number = 0, parent = None\<rparr>,
                       \<lparr>item_title = py ''B'', page_number = 1, parent = Some 0\<rparr>],
              parent_stack = [None, Some 0, Some 0, Some 0, Some 1], stderr = []\<rparr>"
    and res: "add_bookmarks_to_pdf [] 3 ([?A] @ ?B # [?C]) = Inr res"
      "map (\<lambda>i. (item_title i, page_number i)) (items res)
        = map (\<lambda>g. (title g, page g - 1)) (attached 3 ([?A] @ ?B # [?C]))"
      "items res ! 1 = \<lparr>item_title = py ''B'', page_number = 1, parent = Some 0\<rparr>"
    by (auto simp: newest_def numeral_3_eq_3)
  from res(2) have "map fst (map (\<lambda>i. (item_title i, page_number i)) (items res))
        = [py ''A'', py ''B'', py ''C'']"
    by (simp add: attached_def in_range_def)
  then have "map item_title (items res) = [py ''A'', py ''B'', py ''C'']"
    by (simp add: comp_def)
  with all rng skip two res show ?thesis by simp
qed

section \<open>Well-formed outlines\<close>

text \<open>
  \<open>last_with_level k ls\<close> is the greatest position of \<open>ls\<close> holding \<open>k\<close>, and
  a well-formed sequence grows by a level between 1 and one more than its last.
\<close>

lemma last_with_level_snoc:
  "last_with_level k (ls @ [l]) = (if l = k then Some (length ls) else last_with_level k ls)"
  by (induction ls) (auto split: option.splits)

lemma last_with_level_None_iff:
  "last_with_level k ls = None \<longleftrightarrow> k \<notin> set ls"
  by (induction ls) (auto split: option.splits)

lemma last_with_level_Some_iff:
  "last_with_level k ls = Some j \<longleftrightarrow>
     j < length ls \<and> ls ! j = k \<and> (\<forall>i. j < i \<and> i < length ls \<longrightarrow> ls ! i \<noteq> k)"
proof (induction ls arbitrary: j rule: rev_induct)
  case Nil
  then show ?case by simp
next
  case (snoc l ls)
  show ?case
  proof (cases "l = k")
    case True
    have "(j < Suc (length ls) \<and> (ls @ [l]) ! j = k
            \<and> (\<forall>i. j < i \<and> i < Suc (length ls) \<longrightarrow> (ls @ [l]) ! i \<noteq> k)) \<longleftrightarrow> j = length ls"
    proof
      assume a: "j < Suc (length ls) \<and> (ls @ [l]) ! j = k
            \<and> (\<forall>i. j < i \<and> i < Suc (length ls) \<longrightarrow> (ls @ [l]) ! i \<noteq> k)"
      show "j = length ls"
      proof (rule ccontr)
        assume "j \<noteq> length ls"
        with a have j: "j < length ls" by simp
        from a have "\<forall>i. j < i \<and> i < Suc (length ls) \<longrightarrow> (ls @ [l]) ! i \<noteq> k" by simp
        with j have "(ls @ [l]) ! length ls \<noteq> k" by blast
        with True show False by simp
      qed
    next
      assume "j = length ls"
      with True show "j < Suc (length ls) \<and> (ls @ [l]) ! j = k
            \<and> (\<forall>i. j < i \<and> i < Suc (length ls) \<longrightarrow> (ls @ [l]) ! i \<noteq> k)"
        by simp
    qed
    with True show ?thesis by (auto simp: last_with_level_snoc)
  next
    case False
    have "(j < Suc (length ls) \<and> (ls @ [l]) ! j = k
            \<and> (\<forall>i. j < i \<and> i < Suc (length ls) \<longrightarrow> (ls @ [l]) ! i \<noteq> k))
          \<longleftrightarrow> (j < length ls \<and> ls ! j = k \<and> (\<forall>i. j < i \<and> i < length ls \<longrightarrow> ls ! i \<noteq> k))"
      (is "?L \<longleftrightarrow> ?R")
    proof
      assume L: ?L
      with False have j: "j < length ls" by (cases "j = length ls") auto
      with L have "ls ! j = k" by (simp add: nth_append)
      moreover have "\<forall>i. j < i \<and> i < length ls \<longrightarrow> ls ! i \<noteq> k"
      proof (intro allI impI)
        fix i assume i: "j < i \<and> i < length ls"
        with L have "(ls @ [l]) ! i \<noteq> k" by simp
        with i show "ls ! i \<noteq> k" by (simp add: nth_append)
      qed
      ultimately show ?R using j by simp
    next
      assume R: ?R
      then have "(ls @ [l]) ! j = k" by (simp add: nth_append)
      moreover have "\<forall>i. j < i \<and> i < Suc (length ls) \<longrightarrow> (ls @ [l]) ! i \<noteq> k"
      proof (intro allI impI)
        fix i assume i: "j < i \<and> i < Suc (length ls)"
        show "(ls @ [l]) ! i \<noteq> k"
        proof (cases "i = length ls")
          case True
          with False show ?thesis by simp
        next
          case ne: False
          with i have "i < length ls" by simp
          with R i show ?thesis by (simp add: nth_append)
        qed
      qed
      ultimately show ?L using R by simp
    qed
    with False snoc.IH [of j] show ?thesis by (simp add: last_with_level_snoc)
  qed
qed

lemma well_formed_from_snoc:
  "well_formed_from p (ls @ [l]) \<longleftrightarrow>
     well_formed_from p ls \<and> 1 \<le> l \<and> l \<le> (if ls = [] then p else last ls) + 1"
  by (induction ls arbitrary: p) auto

lemma well_formed_from_positive:
  "well_formed_from p ls \<Longrightarrow> \<forall>l\<in>set ls. 1 \<le> l"
  by (induction ls arbitrary: p) auto

lemma expected_parent_snoc_old:
  "i < length ls \<Longrightarrow> expected_parent (ls @ [l]) i = expected_parent ls i"
  by (simp add: expected_parent_def nth_append)

lemma expected_parent_snoc_new:
  "expected_parent (ls @ [l]) (length ls) =
     (if l = 1 then None else last_with_level (l - 1) ls)"
  by (simp add: expected_parent_def)

text \<open>
  On a well-formed outline whose pages are all in range, entry \<open>j\<close> of the stack is
  the node of the most recent heading of level \<open>j\<close>, and every item has the parent the
  levels imply.
\<close>

lemma last_take_nth:
  assumes "1 \<le> k" and "k \<le> length S"
  shows "last (take k S) = S ! (k - 1)"
proof -
  from assms have ne: "take k S \<noteq> []" by auto
  from assms have len: "length (take k S) = k" by simp
  from last_conv_nth [OF ne] len have "last (take k S) = take k S ! (k - 1)" by simp
  also from assms have "\<dots> = S ! (k - 1)" by simp
  finally show ?thesis .
qed

lemma well_formed_run:
  assumes "\<forall>h\<in>set hs. in_range N h" and "well_formed_levels (map level hs)"
  shows "\<exists>st. add_bookmarks_to_pdf err N hs = Inr st
    \<and> stderr st = err
    \<and> length (items st) = length hs
    \<and> (\<forall>i<length hs. items st ! i =
          \<lparr>item_title = title (hs ! i), page_number = page (hs ! i) - 1,
            parent = expected_parent (map level hs) i\<rparr>)
    \<and> (\<forall>i<length hs. level (hs ! i) \<noteq> 1 \<longrightarrow> expected_parent (map level hs) i \<noteq> None)
    \<and> int (length (parent_stack st)) = (if hs = [] then 0 else level (last hs)) + 1
    \<and> (\<forall>j<length (parent_stack st). parent_stack st ! j = last_with_level (int j) (map level hs))
    \<and> (\<forall>j<length (parent_stack st). 1 \<le> j \<longrightarrow> parent_stack st ! j \<noteq> None)"
  using assms
proof (induction hs rule: rev_induct)
  case Nil
  then show ?case by (simp add: add_bookmarks_to_pdf_def)
next
  case (snoc h hs)
  define ls where "ls = map level hs"
  define l where "l = level h"
  define cur where "cur = (if hs = [] then 0 else level (last hs))"
  from snoc.prems have rng: "in_range N h" and rngs: "\<forall>h\<in>set hs. in_range N h" by simp_all
  from snoc.prems(2) have wf: "well_formed_levels ls" and l1: "1 \<le> l" and lc: "l \<le> cur + 1"
    by (auto simp: well_formed_levels_def well_formed_from_snoc ls_def l_def cur_def last_map)
  from snoc.IH [OF rngs] wf obtain st where
    run: "add_bookmarks_to_pdf err N hs = Inr st"
    and err: "stderr st = err"
    and len: "length (items st) = length hs"
    and its: "\<forall>i<length hs. items st ! i =
          \<lparr>item_title = title (hs ! i), page_number = page (hs ! i) - 1,
            parent = expected_parent ls i\<rparr>"
    and par: "\<forall>i<length hs. level (hs ! i) \<noteq> 1 \<longrightarrow> expected_parent ls i \<noteq> None"
    and slen: "int (length (parent_stack st)) = cur + 1"
    and stk: "\<forall>j<length (parent_stack st). parent_stack st ! j = last_with_level (int j) ls"
    and some: "\<forall>j<length (parent_stack st). 1 \<le> j \<longrightarrow> parent_stack st ! j \<noteq> None"
    unfolding ls_def cur_def by blast
  define S where "S = parent_stack st"
  define k where "k = nat l"
  from l1 have k1: "1 \<le> k" and kl: "int k = l" by (simp_all add: k_def)
  from slen lc kl have kS: "k \<le> length S" by (simp add: S_def)
  with k1 have Sne: "S \<noteq> []" by auto
  have pos: "\<forall>x\<in>set ls. 1 \<le> x"
    using wf by (auto simp: well_formed_levels_def dest: well_formed_from_positive)
  have top: "last (take k S) = expected_parent (ls @ [l]) (length hs)"
  proof -
    have "last (take k S) = S ! (k - 1)"
      using k1 kS by (rule last_take_nth)
    also have "\<dots> = last_with_level (int (k - 1)) ls"
      using stk k1 kS by (simp add: S_def)
    also have "int (k - 1) = l - 1" using k1 kl by simp
    finally have eq: "last (take k S) = last_with_level (l - 1) ls" .
    show ?thesis
    proof (cases "l = 1")
      case True
      from pos have "(0::int) \<notin> set ls" by auto
      then have "last_with_level 0 ls = None" by (simp add: last_with_level_None_iff)
      with eq True show ?thesis
        using expected_parent_snoc_new [of ls l] by (simp add: ls_def)
    next
      case False
      with eq show ?thesis
        using expected_parent_snoc_new [of ls l] by (simp add: ls_def)
    qed
  qed
  have newpar: "expected_parent (ls @ [l]) (length hs) \<noteq> None" if "l \<noteq> 1"
  proof -
    from that l1 k1 kl have "1 \<le> k - 1" by simp
    moreover from kS k1 have "k - 1 < length S" by simp
    ultimately have "S ! (k - 1) \<noteq> None" using some by (simp add: S_def)
    moreover have "last (take k S) = S ! (k - 1)"
      using k1 kS by (rule last_take_nth)
    ultimately show ?thesis using top by simp
  qed
  define st' where "st' = st\<lparr>items := items st @
            [\<lparr>item_title = title h, page_number = page h - 1,
              parent = expected_parent (ls @ [l]) (length hs)\<rparr>],
          parent_stack := take k S @ [Some (length hs)]\<rparr>"
  have "add_bookmarks_to_pdf err N (hs @ [h]) = loop_body N st h"
    using run by (simp add: add_bookmarks_to_pdf_def for_loop_snoc)
  also have "\<dots> = Inr st'"
    using loop_body_attach [of N h st] rng l1 Sne kS top
    by (simp add: S_def l_def k_def st'_def len)
  finally have run': "add_bookmarks_to_pdf err N (hs @ [h]) = Inr st'" .
  have its': "\<forall>i<length (hs @ [h]). items st' ! i =
          \<lparr>item_title = title ((hs @ [h]) ! i), page_number = page ((hs @ [h]) ! i) - 1,
            parent = expected_parent (ls @ [l]) i\<rparr>"
  proof (intro allI impI)
    fix i assume "i < length (hs @ [h])"
    then consider "i < length hs" | "i = length hs" by fastforce
    then show "items st' ! i =
          \<lparr>item_title = title ((hs @ [h]) ! i), page_number = page ((hs @ [h]) ! i) - 1,
            parent = expected_parent (ls @ [l]) i\<rparr>"
    proof cases
      case 1
      then have "expected_parent (ls @ [l]) i = expected_parent ls i"
        by (simp add: expected_parent_snoc_old ls_def)
      with 1 its len show ?thesis by (simp add: st'_def nth_append)
    next
      case 2
      with len show ?thesis by (simp add: st'_def nth_append)
    qed
  qed
  have par': "\<forall>i<length (hs @ [h]). level ((hs @ [h]) ! i) \<noteq> 1 \<longrightarrow>
        expected_parent (ls @ [l]) i \<noteq> None"
  proof (intro allI impI)
    fix i assume i: "i < length (hs @ [h])" and ne: "level ((hs @ [h]) ! i) \<noteq> 1"
    from i consider "i < length hs" | "i = length hs" by fastforce
    then show "expected_parent (ls @ [l]) i \<noteq> None"
    proof cases
      case 1
      then have "expected_parent (ls @ [l]) i = expected_parent ls i"
        by (simp add: expected_parent_snoc_old ls_def)
      with 1 ne par show ?thesis by (simp add: nth_append)
    next
      case 2
      with ne have "l \<noteq> 1" by (simp add: l_def)
      with 2 newpar show ?thesis by simp
    qed
  qed
  have len': "length (parent_stack st') = Suc k"
    using kS by (simp add: st'_def)
  have slen': "int (length (parent_stack st')) = level h + 1"
    using len' kl by (simp add: l_def)
  have stk': "\<forall>j<length (parent_stack st'). parent_stack st' ! j = last_with_level (int j) (ls @ [l])"
  proof (intro allI impI)
    fix j assume "j < length (parent_stack st')"
    with len' have "j < k \<or> j = k" by auto
    then show "parent_stack st' ! j = last_with_level (int j) (ls @ [l])"
    proof
      assume j: "j < k"
      with kl have "l \<noteq> int j" by auto
      moreover from j kS stk have "S ! j = last_with_level (int j) ls" by (simp add: S_def)
      ultimately show ?thesis
        using j kS by (simp add: st'_def nth_append last_with_level_snoc min_def)
    next
      assume j: "j = k"
      with kl kS show ?thesis
        by (simp add: st'_def nth_append last_with_level_snoc min_def ls_def)
    qed
  qed
  have some': "\<forall>j<length (parent_stack st'). 1 \<le> j \<longrightarrow> parent_stack st' ! j \<noteq> None"
  proof (intro allI impI)
    fix j assume a: "j < length (parent_stack st')" and j1: "1 \<le> j"
    with len' have "j < k \<or> j = k" by auto
    then show "parent_stack st' ! j \<noteq> None"
    proof
      assume j: "j < k"
      with kS j1 some have "S ! j \<noteq> None" by (simp add: S_def)
      with j kS show ?thesis by (simp add: st'_def nth_append min_def)
    next
      assume "j = k"
      with kS show ?thesis by (simp add: st'_def nth_append min_def)
    qed
  qed
  have "stderr st' = err" "length (items st') = length (hs @ [h])"
    using err len by (simp_all add: st'_def)
  with run' its' par' slen' stk' some' show ?case
    unfolding ls_def l_def by (intro exI [of _ st']) simp
qed

text \<open>
  C1: for an outline whose pages are all in range and whose levels are well formed, the
  builder succeeds without a warning and creates exactly one item per heading, in input
  order, with the heading's title and its page as a 0-based index. The parent of each item
  is the one the levels imply: an item of level 1 is at the top; an item of another level
  is a child of the item of the most recent earlier heading whose level is one less (such
  a heading exists, and no heading between the two has that level). The children of a
  node are in input order, and the depth of every item in the outline is the level of its
  heading.
\<close>

theorem well_formed_outline_nesting:
  assumes "\<forall>h\<in>set hs. in_range N h" and "well_formed_levels (map level hs)"
  shows "\<exists>st. add_bookmarks_to_pdf err N hs = Inr st
    \<and> stderr st = err
    \<and> length (items st) = length hs
    \<and> (\<forall>p. children (items st) p
              = filter (\<lambda>i. expected_parent (map level hs) i = p) [0..<length hs])
    \<and> (\<forall>i<length hs. int (depth (items st) i) = level (hs ! i))
    \<and> (\<forall>i<length hs.
          items st ! i =
            \<lparr>item_title = title (hs ! i), page_number = page (hs ! i) - 1,
              parent = expected_parent (map level hs) i\<rparr>
        \<and> (level (hs ! i) = 1 \<longrightarrow> parent (items st ! i) = None)
        \<and> (level (hs ! i) \<noteq> 1 \<longrightarrow>
             (\<exists>j<i. parent (items st ! i) = Some j
                \<and> level (hs ! j) = level (hs ! i) - 1
                \<and> (\<forall>m. j < m \<and> m < i \<longrightarrow> level (hs ! m) \<noteq> level (hs ! i) - 1))))"
proof -
  from well_formed_run [OF assms, of err] obtain st where
    run: "add_bookmarks_to_pdf err N hs = Inr st"
    and err: "stderr st = err"
    and len: "length (items st) = length hs"
    and its: "\<forall>i<length hs. items st ! i =
          \<lparr>item_title = title (hs ! i), page_number = page (hs ! i) - 1,
            parent = expected_parent (map level hs) i\<rparr>"
    and par: "\<forall>i<length hs. level (hs ! i) \<noteq> 1 \<longrightarrow> expected_parent (map level hs) i \<noteq> None"
    by blast
  have each: "items st ! i =
            \<lparr>item_title = title (hs ! i), page_number = page (hs ! i) - 1,
              parent = expected_parent (map level hs) i\<rparr>
        \<and> (level (hs ! i) = 1 \<longrightarrow> parent (items st ! i) = None)
        \<and> (level (hs ! i) \<noteq> 1 \<longrightarrow>
             (\<exists>j<i. parent (items st ! i) = Some j
                \<and> level (hs ! j) = level (hs ! i) - 1
                \<and> (\<forall>m. j < m \<and> m < i \<longrightarrow> level (hs ! m) \<noteq> level (hs ! i) - 1)))"
    if i: "i < length hs" for i
  proof -
    from its i have item: "items st ! i =
            \<lparr>item_title = title (hs ! i), page_number = page (hs ! i) - 1,
              parent = expected_parent (map level hs) i\<rparr>" by simp
    then have p: "parent (items st ! i) = expected_parent (map level hs) i" by simp
    have top: "parent (items st ! i) = None" if "level (hs ! i) = 1"
      using that p i by (simp add: expected_parent_def)
    have nested: "\<exists>j<i. parent (items st ! i) = Some j
                \<and> level (hs ! j) = level (hs ! i) - 1
                \<and> (\<forall>m. j < m \<and> m < i \<longrightarrow> level (hs ! m) \<noteq> level (hs ! i) - 1)"
      if ne: "level (hs ! i) \<noteq> 1"
    proof -
      from par i ne obtain j where j: "expected_parent (map level hs) i = Some j" by auto
      with ne i have "last_with_level (level (hs ! i) - 1) (take i (map level hs)) = Some j"
        by (simp add: expected_parent_def)
      then have c: "j < length (take i (map level hs))"
        "take i (map level hs) ! j = level (hs ! i) - 1"
        "\<forall>m. j < m \<and> m < length (take i (map level hs)) \<longrightarrow>
             take i (map level hs) ! m \<noteq> level (hs ! i) - 1"
        by (simp_all add: last_with_level_Some_iff)
      from c(1) i have ji: "j < i" by simp
      with c(2) i have "level (hs ! j) = level (hs ! i) - 1" by simp
      moreover have "\<forall>m. j < m \<and> m < i \<longrightarrow> level (hs ! m) \<noteq> level (hs ! i) - 1"
      proof (intro allI impI)
        fix m assume m: "j < m \<and> m < i"
        with i have "m < length (take i (map level hs))" by simp
        with c(3) m have "take i (map level hs) ! m \<noteq> level (hs ! i) - 1" by blast
        with m i show "level (hs ! m) \<noteq> level (hs ! i) - 1" by simp
      qed
      ultimately show ?thesis using ji p j by auto
    qed
    from item top nested show ?thesis by blast
  qed
  have kids: "children (items st) p
              = filter (\<lambda>i. expected_parent (map level hs) i = p) [0..<length hs]" for p
    unfolding children_def len using its by (intro filter_cong) simp_all
  have fuel: "int (depth_fuel f (items st) i) = level (hs ! i)"
    if "i < length hs" and "i < f" for i f
    using that
  proof (induction i arbitrary: f rule: less_induct)
    case (less i)
    from \<open>i < f\<close> obtain f' where f: "f = Suc f'" and f': "i \<le> f'"
      by (cases f) auto
    note e = each [OF \<open>i < length hs\<close>]
    show ?case
    proof (cases "level (hs ! i) = 1")
      case True
      with e have "parent (items st ! i) = None" by blast
      with True f show ?thesis by simp
    next
      case False
      with e obtain j where j: "j < i" "parent (items st ! i) = Some j"
        "level (hs ! j) = level (hs ! i) - 1"
        by blast
      from j(1) less.prems f' have "int (depth_fuel f' (items st) j) = level (hs ! j)"
        by (intro less.IH) simp_all
      with j f show ?thesis by simp
    qed
  qed
  have deep: "\<forall>i<length hs. int (depth (items st) i) = level (hs ! i)"
    unfolding depth_def len using fuel by blast
  from run err len kids deep each show ?thesis by blast
qed

theorem well_formed_outline_nesting_witness:
  "list_all (in_range 5)
     [\<lparr>title = py ''A'', level = 1, page = 1\<rparr>, \<lparr>title = py ''B'', level = 2, page = 2\<rparr>,
      \<lparr>title = py ''C'', level = 3, page = 3\<rparr>, \<lparr>title = py ''D'', level = 2, page = 4\<rparr>,
      \<lparr>title = py ''E'', level = 1, page = 5\<rparr>]
   \<and> well_formed_levels [1, 2, 3, 2, 1]
   \<and> (\<exists>st. add_bookmarks_to_pdf [] 5
         [\<lparr>title = py ''A'', level = 1, page = 1\<rparr>, \<lparr>title = py ''B'', level = 2, page = 2\<rparr>,
          \<lparr>title = py ''C'', level = 3, page = 3\<rparr>, \<lparr>title = py ''D'', level = 2, page = 4\<rparr>,
          \<lparr>title = py ''E'', level = 1, page = 5\<rparr>] = Inr st
        \<and> stderr st = []
        \<and> length (items st) = 5
        \<and> children (items st) None = [0, 4]
        \<and> children (items st) (Some 0) = [1, 3]
        \<and> children (items st) (Some 1) = [2]
        \<and> map (depth (items st)) [0, 1, 2, 3, 4] = [1, 2, 3, 2, 1]
        \<and> items st ! 0 = \<lparr>item_title = py ''A'', page_number = 0, parent = None\<rparr>
        \<and> items st ! 1 = \<lparr>item_title = py ''B'', page_number = 1, parent = Some 0\<rparr>
        \<and> items st ! 2 = \<lparr>item_title = py ''C'', page_number = 2, parent = Some 1\<rparr>
        \<and> items st ! 3 = \<lparr>item_title = py ''D'', page_number = 3, parent = Some 0\<rparr>
        \<and> items st ! 4 = \<lparr>item_title = py ''E'', page_number = 4, parent = None\<rparr>)"
proof -
  let ?hs = "[\<lparr>title = py ''A'', level = 1, page = 1\<rparr>, \<lparr>title = py ''B'', level = 2, page = 2\<rparr>,
      \<lparr>title = py ''C'', level = 3, page = 3\<rparr>, \<lparr>title = py ''D'', level = 2, page = 4\<rparr>,
      \<lparr>title = py ''E'', level = 1, page = 5\<rparr>]"
  have rng: "\<forall>h\<in>set ?hs. in_range 5 h" by (simp add: in_range_def)
  have wf: "well_formed_levels (map level ?hs)" by (simp add: well_formed_levels_def)
  from well_formed_outline_nesting [OF rng wf, of "[]"] obtain st where
    run: "add_bookmarks_to_pdf [] 5 ?hs = Inr st" "stderr st = []" "length (items st) = 5"
    and kids: "\<forall>p. children (items st) p
              = filter (\<lambda>i. expected_parent (map level ?hs) i = p) [0..<length ?hs]"
    and deep: "\<forall>i<length ?hs. int (depth (items st) i) = level (?hs ! i)"
    and all: "\<forall>i<length ?hs. items st ! i =
            \<lparr>item_title = title (?hs ! i), page_number = page (?hs ! i) - 1,
              parent = expected_parent (map level ?hs) i\<rparr>"
    by auto
  have "map (depth (items st)) [0, 1, 2, 3, 4] = [1, 2, 3, 2, 1]"
    using deep [rule_format, of 0] deep [rule_format, of 1] deep [rule_format, of 2]
      deep [rule_format, of 3] deep [rule_format, of 4]
    by simp
  moreover
  have "children (items st) None = [0, 4]" "children (items st) (Some 0) = [1, 3]"
    "children (items st) (Some 1) = [2]"
    unfolding kids [rule_format] by (simp_all add: expected_parent_def upt_rec)
  moreover
  have "items st ! 0 = \<lparr>item_title = py ''A'', page_number = 0, parent = None\<rparr>"
    using all [rule_format, of 0] by (simp add: expected_parent_def)
  moreover have "items st ! 1 = \<lparr>item_title = py ''B'', page_number = 1, parent = Some 0\<rparr>"
    using all [rule_format, of 1] by (simp add: expected_parent_def)
  moreover have "items st ! 2 = \<lparr>item_title = py ''C'', page_number = 2, parent = Some 1\<rparr>"
    using all [rule_format, of 2] by (simp add: expected_parent_def)
  moreover have "items st ! 3 = \<lparr>item_title = py ''D'', page_number = 3, parent = Some 0\<rparr>"
    using all [rule_format, of 3] by (simp add: expected_parent_def)
  moreover have "items st ! 4 = \<lparr>item_title = py ''E'', page_number = 4, parent = None\<rparr>"
    using all [rule_format, of 4] by (simp add: expected_parent_def)
  ultimately show ?thesis using run by (simp add: in_range_def well_formed_levels_def)
qed

section \<open>The tree as a function of the outline and the page count\<close>

text \<open>
  \<open>last_below k ls\<close> is the greatest position of \<open>ls\<close> holding a level below
  \<open>k\<close>.
\<close>

lemma last_below_snoc:
  "last_below k (ls @ [l]) = (if l < k then Some (length ls) else last_below k ls)"
  by (induction ls) (auto split: option.splits)

lemma last_below_None_iff:
  "last_below k ls = None \<longleftrightarrow> (\<forall>l\<in>set ls. \<not> l < k)"
  by (induction ls) (auto split: option.splits)

lemma last_below_Some_iff:
  "last_below k ls = Some j \<longleftrightarrow>
     j < length ls \<and> ls ! j < k \<and> (\<forall>i. j < i \<and> i < length ls \<longrightarrow> \<not> ls ! i < k)"
proof (induction ls arbitrary: j rule: rev_induct)
  case Nil
  then show ?case by simp
next
  case (snoc l ls)
  show ?case
  proof (cases "l < k")
    case True
    have "(j < Suc (length ls) \<and> (ls @ [l]) ! j < k
            \<and> (\<forall>i. j < i \<and> i < Suc (length ls) \<longrightarrow> \<not> (ls @ [l]) ! i < k)) \<longleftrightarrow> j = length ls"
    proof
      assume a: "j < Suc (length ls) \<and> (ls @ [l]) ! j < k
            \<and> (\<forall>i. j < i \<and> i < Suc (length ls) \<longrightarrow> \<not> (ls @ [l]) ! i < k)"
      show "j = length ls"
      proof (rule ccontr)
        assume "j \<noteq> length ls"
        with a have j: "j < length ls" by simp
        from a have "\<forall>i. j < i \<and> i < Suc (length ls) \<longrightarrow> \<not> (ls @ [l]) ! i < k" by simp
        with j have "\<not> (ls @ [l]) ! length ls < k" by blast
        with True show False by simp
      qed
    next
      assume "j = length ls"
      with True show "j < Suc (length ls) \<and> (ls @ [l]) ! j < k
            \<and> (\<forall>i. j < i \<and> i < Suc (length ls) \<longrightarrow> \<not> (ls @ [l]) ! i < k)"
        by simp
    qed
    with True show ?thesis by (auto simp: last_below_snoc)
  next
    case False
    have "(j < Suc (length ls) \<and> (ls @ [l]) ! j < k
            \<and> (\<forall>i. j < i \<and> i < Suc (length ls) \<longrightarrow> \<not> (ls @ [l]) ! i < k))
          \<longleftrightarrow> (j < length ls \<and> ls ! j < k \<and> (\<forall>i. j < i \<and> i < length ls \<longrightarrow> \<not> ls ! i < k))"
      (is "?L \<longleftrightarrow> ?R")
    proof
      assume L: ?L
      with False have j: "j < length ls" by (cases "j = length ls") auto
      with L have "ls ! j < k" by (simp add: nth_append)
      moreover have "\<forall>i. j < i \<and> i < length ls \<longrightarrow> \<not> ls ! i < k"
      proof (intro allI impI)
        fix i assume i: "j < i \<and> i < length ls"
        with L have "\<not> (ls @ [l]) ! i < k" by simp
        with i show "\<not> ls ! i < k" by (simp add: nth_append)
      qed
      ultimately show ?R using j by simp
    next
      assume R: ?R
      then have "(ls @ [l]) ! j < k" by (simp add: nth_append)
      moreover have "\<forall>i. j < i \<and> i < Suc (length ls) \<longrightarrow> \<not> (ls @ [l]) ! i < k"
      proof (intro allI impI)
        fix i assume i: "j < i \<and> i < Suc (length ls)"
        show "\<not> (ls @ [l]) ! i < k"
        proof (cases "i = length ls")
          case True
          with False show ?thesis by simp
        next
          case ne: False
          with i have "i < length ls" by simp
          with R i show ?thesis by (simp add: nth_append)
        qed
      qed
      ultimately show ?L using R by simp
    qed
    with False snoc.IH [of j] show ?thesis by (simp add: last_below_snoc)
  qed
qed

lemma last_below_beyond:
  assumes "ls \<noteq> []" and "last ls < k"
  shows "last_below k ls = Some (length ls - 1)"
proof -
  from assms(1) obtain xs x where ls: "ls = xs @ [x]" by (meson rev_exhaust)
  with assms(2) show ?thesis by (simp add: last_below_snoc)
qed

lemma nearest_shallower_snoc_old:
  "i < length ls \<Longrightarrow> nearest_shallower (ls @ [l]) i = nearest_shallower ls i"
  by (simp add: nearest_shallower_def nth_append)

lemma nearest_shallower_snoc_new:
  "nearest_shallower (ls @ [l]) (length ls) = last_below l ls"
  by (simp add: nearest_shallower_def)

text \<open>
  An iteration for a heading in range fails on a negative level, whatever the stack, and
  on level 0 it empties the stack, attaches the item at the top and leaves the item alone
  on the stack.
\<close>

lemma loop_body_negative:
  assumes "in_range N h" and "level h < 0"
  shows "loop_body N st h = Inl IndexError"
proof -
  from assms(1) have "\<not> (page h - 1 < 0 \<or> page h - 1 \<ge> int N)" by (auto simp: in_range_def)
  moreover have "(0::int) \<le> int (length (parent_stack st))" by simp
  with assms(2) have "\<not> int (length (parent_stack st)) \<le> level h" by linarith
  with assms(2) have "pop_loop (level h) (parent_stack st) = Inl IndexError"
    by (simp add: pop_loop_closed)
  ultimately show ?thesis by (simp add: loop_body_def Let_def)
qed

lemma loop_body_level_zero:
  assumes "in_range N h" and "level h = 0" and "parent_stack st \<noteq> []"
  shows "loop_body N st h =
    Inr (st\<lparr>items := items st @
            [\<lparr>item_title = title h, page_number = page h - 1, parent = None\<rparr>],
          parent_stack := [Some (length (items st))]\<rparr>)"
proof -
  from assms(1) have "\<not> (page h - 1 < 0 \<or> page h - 1 \<ge> int N)" by (auto simp: in_range_def)
  moreover from assms(2,3) have "pop_loop (level h) (parent_stack st) = Inr []"
    by (simp add: pop_loop_closed)
  moreover from assms(2) have "pad_loop (level h) ([] :: nat option list) = Inr []"
    by (simp add: pad_loop_closed)
  ultimately show ?thesis
    using assms(2) by (simp add: loop_body_def Let_def add_outline_item_def update_stack_def)
qed

text \<open>
  The run on any outline: it fails as soon as a heading in range has a negative level;
  otherwise entry \<open>j\<close> of the stack is the node of the most recent heading in range
  whose level is at most \<open>j\<close>, and every item has the nearest shallower heading before
  it as its parent.
\<close>

lemma attached_snoc:
  "attached N (hs @ [h]) = (if in_range N h then attached N hs @ [h] else attached N hs)"
  by (simp add: attached_def)

lemma general_run:
  "(list_ex (\<lambda>l. l < 0) (map level (attached N hs)) \<longrightarrow>
      add_bookmarks_to_pdf err N hs = Inl IndexError)
   \<and> (\<not> list_ex (\<lambda>l. l < 0) (map level (attached N hs)) \<longrightarrow>
      (\<exists>st. add_bookmarks_to_pdf err N hs = Inr st
         \<and> length (items st) = length (attached N hs)
         \<and> (\<forall>i<length (attached N hs). items st ! i =
               \<lparr>item_title = title (attached N hs ! i),
                 page_number = page (attached N hs ! i) - 1,
                 parent = nearest_shallower (map level (attached N hs)) i\<rparr>)
         \<and> int (length (parent_stack st))
             = (if attached N hs = [] then 0 else level (last (attached N hs))) + 1
         \<and> (\<forall>j<length (parent_stack st).
               parent_stack st ! j = last_below (int j + 1) (map level (attached N hs)))))"
proof (induction hs rule: rev_induct)
  case Nil
  then show ?case by (simp add: add_bookmarks_to_pdf_def attached_def)
next
  case (snoc h hs)
  define kept where "kept = attached N hs"
  define ls where "ls = map level kept"
  define l where "l = level h"
  note IH = snoc.IH [folded kept_def, folded ls_def]
  have step: "add_bookmarks_to_pdf err N (hs @ [h]) =
      (case add_bookmarks_to_pdf err N hs of Inl e \<Rightarrow> Inl e | Inr st \<Rightarrow> loop_body N st h)"
    by (simp add: add_bookmarks_to_pdf_def for_loop_snoc)
  show ?case
  proof (cases "in_range N h")
    case False
    then have same: "attached N (hs @ [h]) = attached N hs" by (simp add: attached_snoc)
    show ?thesis
    proof (cases "list_ex (\<lambda>l. l < 0) (map level (attached N hs))")
      case True
      with snoc.IH same step show ?thesis by simp
    next
      case neg: False
      with snoc.IH obtain st where st: "add_bookmarks_to_pdf err N hs = Inr st"
         "length (items st) = length (attached N hs)"
         "\<forall>i<length (attached N hs). items st ! i =
               \<lparr>item_title = title (attached N hs ! i),
                 page_number = page (attached N hs ! i) - 1,
                 parent = nearest_shallower (map level (attached N hs)) i\<rparr>"
         "int (length (parent_stack st))
             = (if attached N hs = [] then 0 else level (last (attached N hs))) + 1"
         "\<forall>j<length (parent_stack st).
               parent_stack st ! j = last_below (int j + 1) (map level (attached N hs))"
        by blast
      from st(1) step False
      have "add_bookmarks_to_pdf err N (hs @ [h])
              = Inr (st\<lparr>stderr := stderr st @ [warning_text h]\<rparr>)"
        by (simp add: loop_body_skip)
      with st neg show ?thesis unfolding same by simp
    qed
  next
    case rng: True
    then have more: "attached N (hs @ [h]) = kept @ [h]" by (simp add: attached_snoc kept_def)
    have lsl: "map level (attached N (hs @ [h])) = ls @ [l]"
      by (simp add: more ls_def l_def)
    show ?thesis
    proof (cases "list_ex (\<lambda>l. l < 0) ls")
      case True
      with IH have "add_bookmarks_to_pdf err N hs = Inl IndexError" by simp
      with step have "add_bookmarks_to_pdf err N (hs @ [h]) = Inl IndexError" by simp
      with True show ?thesis unfolding lsl by simp
    next
      case neg: False
      with IH obtain st where run: "add_bookmarks_to_pdf err N hs = Inr st"
         and len: "length (items st) = length kept"
         and its: "\<forall>i<length kept. items st ! i =
               \<lparr>item_title = title (kept ! i), page_number = page (kept ! i) - 1,
                 parent = nearest_shallower ls i\<rparr>"
         and slen: "int (length (parent_stack st))
             = (if kept = [] then 0 else level (last kept)) + 1"
         and stk: "\<forall>j<length (parent_stack st).
               parent_stack st ! j = last_below (int j + 1) ls"
        by blast
      define S where "S = parent_stack st"
      define m where "m = length S"
      from neg have nonneg: "\<forall>x\<in>set ls. 0 \<le> x"
        by (auto simp: list_ex_iff not_less)
      have lastnn: "0 \<le> level (last kept)" if "kept \<noteq> []"
      proof -
        from that have "level (last kept) \<in> set ls" by (simp add: ls_def)
        with nonneg show ?thesis by blast
      qed
      from slen lastnn have m1: "1 \<le> m" by (cases "kept = []") (simp_all add: m_def S_def)
      then have Sne: "S \<noteq> []" by (auto simp: m_def)
      have body: "add_bookmarks_to_pdf err N (hs @ [h]) = loop_body N st h"
        using step run by simp
      \<comment> \<open>every level from the length of the stack on sees the same nearest heading\<close>
      have beyond: "last_below k ls = last_below (int m) ls" if "int m \<le> k" for k
      proof (cases "kept = []")
        case True
        then show ?thesis by (simp add: ls_def)
      next
        case False
        with slen lastnn have "int m = level (last kept) + 1" by (simp add: m_def S_def)
        moreover from False have "last ls = level (last kept)" by (simp add: ls_def last_map)
        moreover from False have "ls \<noteq> []" by (simp add: ls_def)
        ultimately show ?thesis using that by (simp add: last_below_beyond)
      qed
      have topS: "last S = last_below (int m) ls"
      proof -
        from Sne have "last S = S ! (m - 1)" by (simp add: last_conv_nth m_def)
        also from m1 stk have "\<dots> = last_below (int (m - 1) + 1) ls" by (simp add: S_def m_def)
        also from m1 have "int (m - 1) + 1 = int m" by simp
        finally show ?thesis .
      qed
      show ?thesis
      proof (cases "l < 0")
        case True
        with rng body have "add_bookmarks_to_pdf err N (hs @ [h]) = Inl IndexError"
          by (simp add: loop_body_negative l_def)
        moreover from True have "list_ex (\<lambda>l. l < 0) (ls @ [l])" by simp
        ultimately show ?thesis unfolding lsl by simp
      next
        case l0: False
        with neg have neg': "\<not> list_ex (\<lambda>l. l < 0) (ls @ [l])" by simp
        define k where "k = nat l"
        from l0 have kl: "int k = l" by (simp add: k_def)
        define par where "par = last_below l ls"
        define stack' where "stack' = take k S @ replicate (k - m) (last S) @ [Some (length kept)]"
        define st' where "st' = st\<lparr>items := items st @
              [\<lparr>item_title = title h, page_number = page h - 1, parent = par\<rparr>],
            parent_stack := stack'\<rparr>"
        have run': "loop_body N st h = Inr st'"
        proof (cases "l = 0")
          case True
          then have k0: "k = 0" by (simp add: k_def)
          from nonneg True have "last_below l ls = None"
            by (auto simp: last_below_None_iff)
          with loop_body_level_zero [of N h st] rng True Sne k0 show ?thesis
            by (simp add: st'_def stack'_def par_def l_def S_def len)
        next
          case False
          with l0 have l1: "1 \<le> l" by simp
          then have k1: "1 \<le> k" by (simp add: k_def)
          have "last (take k S) = par"
          proof (cases "k \<le> m")
            case True
            with k1 have "last (take k S) = S ! (k - 1)" by (simp add: last_take_nth m_def)
            also from True k1 stk have "\<dots> = last_below (int (k - 1) + 1) ls"
              by (simp add: S_def m_def)
            also from k1 kl have "int (k - 1) + 1 = l" by simp
            finally show ?thesis by (simp add: par_def)
          next
            case False
            then have "take k S = S" by (simp add: m_def)
            with topS beyond [of l] False kl show ?thesis by (simp add: par_def)
          qed
          with loop_body_attach [of N h st] rng l1 Sne show ?thesis
            by (simp add: st'_def stack'_def l_def k_def S_def m_def len)
        qed
        have len': "length (items st') = length (kept @ [h])" by (simp add: st'_def len)
        have its': "\<forall>i<length (kept @ [h]). items st' ! i =
               \<lparr>item_title = title ((kept @ [h]) ! i),
                 page_number = page ((kept @ [h]) ! i) - 1,
                 parent = nearest_shallower (ls @ [l]) i\<rparr>"
        proof (intro allI impI)
          fix i assume "i < length (kept @ [h])"
          then consider "i < length kept" | "i = length kept" by fastforce
          then show "items st' ! i =
               \<lparr>item_title = title ((kept @ [h]) ! i),
                 page_number = page ((kept @ [h]) ! i) - 1,
                 parent = nearest_shallower (ls @ [l]) i\<rparr>"
          proof cases
            case 1
            then have "nearest_shallower (ls @ [l]) i = nearest_shallower ls i"
              by (simp add: nearest_shallower_snoc_old ls_def)
            with 1 its len show ?thesis by (simp add: st'_def nth_append)
          next
            case 2
            have "nearest_shallower (ls @ [l]) (length kept) = par"
              using nearest_shallower_snoc_new [of ls l] by (simp add: par_def ls_def)
            with 2 len show ?thesis by (simp add: st'_def nth_append)
          qed
        qed
        have slen0: "length stack' = Suc k" by (auto simp: stack'_def m_def min_def)
        have slen': "int (length (parent_stack st')) = level h + 1"
          using slen0 kl by (simp add: st'_def l_def)
        have stk': "\<forall>j<length (parent_stack st').
               parent_stack st' ! j = last_below (int j + 1) (ls @ [l])"
        proof (intro allI impI)
          fix j assume "j < length (parent_stack st')"
          with slen0 have "j \<le> k" by (simp add: st'_def)
          then consider "j < k" "j < m" | "j < k" "m \<le> j" | "j = k" by fastforce
          then show "parent_stack st' ! j = last_below (int j + 1) (ls @ [l])"
          proof cases
            case 1
            then have "stack' ! j = S ! j" by (simp add: stack'_def nth_append m_def)
            also from 1 stk have "\<dots> = last_below (int j + 1) ls" by (simp add: S_def m_def)
            also from 1 kl have "\<dots> = last_below (int j + 1) (ls @ [l])"
              by (simp add: last_below_snoc)
            finally show ?thesis by (simp add: st'_def)
          next
            case 2
            then have tk: "take k S = S" by (simp add: m_def)
            from 2 have "stack' ! j
                = (replicate (k - m) (last S) @ [Some (length kept)]) ! (j - m)"
              unfolding stack'_def tk by (simp add: nth_append m_def)
            also have "\<dots> = last S"
            proof -
              from 2 have "j - m < k - m" by arith
              then show ?thesis by (simp add: nth_append)
            qed
            also from 2 beyond [of "int j + 1"] topS have "\<dots> = last_below (int j + 1) ls"
              by simp
            also from 2 kl have "\<dots> = last_below (int j + 1) (ls @ [l])"
              by (simp add: last_below_snoc)
            finally show ?thesis by (simp add: st'_def)
          next
            case 3
            define pre where "pre = take k S @ replicate (k - m) (last S)"
            have lp: "length pre = k" by (auto simp: pre_def m_def min_def)
            have sp: "stack' = pre @ [Some (length kept)]" by (simp add: stack'_def pre_def)
            have "stack' ! length pre = Some (length kept)"
              unfolding sp by (rule nth_append_length)
            with lp have "stack' ! k = Some (length kept)" by simp
            moreover from kl have "last_below (int k + 1) (ls @ [l]) = Some (length kept)"
              by (simp add: last_below_snoc ls_def)
            ultimately show ?thesis using 3 by (simp add: st'_def)
          qed
        qed
        from body run' have fin: "add_bookmarks_to_pdf err N (hs @ [h]) = Inr st'" by simp
        have lsl': "map level (kept @ [h]) = ls @ [l]" by (simp add: ls_def l_def)
        have "\<exists>st. add_bookmarks_to_pdf err N (hs @ [h]) = Inr st
            \<and> length (items st) = length (kept @ [h])
            \<and> (\<forall>i<length (kept @ [h]). items st ! i =
               \<lparr>item_title = title ((kept @ [h]) ! i),
                 page_number = page ((kept @ [h]) ! i) - 1,
                 parent = nearest_shallower (ls @ [l]) i\<rparr>)
            \<and> int (length (parent_stack st))
                = (if kept @ [h] = [] then 0 else level (last (kept @ [h]))) + 1
            \<and> (\<forall>j<length (parent_stack st).
                  parent_stack st ! j = last_below (int j + 1) (ls @ [l]))"
          using fin len' its' slen' stk' by (intro exI [of _ st']) simp
        with neg' show ?thesis unfolding more lsl' by blast
      qed
    qed
  qed
qed

text \<open>
  C7: the outline the builder produces (its items with their titles, target pages and
  parents, in order), or the error it raises, is a function of the outline and of the page
  count alone, and that function is \<open>bookmark_tree\<close>, which has no loop, no stack and no
  other state. For every outline, of any levels and pages, every page count and every
  content of the error stream before the call, the run yields exactly
  \<open>bookmark_tree N hs\<close>. Two runs on the same outline and page count therefore yield
  the same outline, whatever was printed before each of them; in particular the second may
  start from the error stream the first one left.
\<close>

theorem builder_deterministic:
  "outline_of (add_bookmarks_to_pdf err N hs) = bookmark_tree N hs
   \<and> outline_of (add_bookmarks_to_pdf err' N hs) = outline_of (add_bookmarks_to_pdf err N hs)"
proof -
  have tree: "outline_of (add_bookmarks_to_pdf e N hs) = bookmark_tree N hs" for e
  proof (cases "list_ex (\<lambda>l. l < 0) (map level (attached N hs))")
    case True
    with general_run [of N hs e] have "add_bookmarks_to_pdf e N hs = Inl IndexError" by blast
    with True show ?thesis by (simp add: outline_of_def bookmark_tree_def Let_def)
  next
    case False
    with general_run [of N hs e] obtain st where st: "add_bookmarks_to_pdf e N hs = Inr st"
      "length (items st) = length (attached N hs)"
      "\<forall>i<length (attached N hs). items st ! i =
               \<lparr>item_title = title (attached N hs ! i),
                 page_number = page (attached N hs ! i) - 1,
                 parent = nearest_shallower (map level (attached N hs)) i\<rparr>"
      by blast
    have "items st = map (\<lambda>i. \<lparr>item_title = title (attached N hs ! i),
                 page_number = page (attached N hs ! i) - 1,
                 parent = nearest_shallower (map level (attached N hs)) i\<rparr>)
             [0..<length (attached N hs)]"
      using st(2,3) by (intro nth_equalityI) simp_all
    with False st(1) show ?thesis by (simp add: outline_of_def bookmark_tree_def Let_def)
  qed
  from tree [of err] tree [of err'] show ?thesis by simp
qed

theorem builder_deterministic_witness:
  "outline_of (add_bookmarks_to_pdf [] 5
     [\<lparr>title = py ''A'', level = 1, page = 1\<rparr>, \<lparr>title = py ''Ghost'', level = 2, page = 99\<rparr>,
      \<lparr>title = py ''B'', level = 4, page = 2\<rparr>, \<lparr>title = py ''C'', level = 3, page = 3\<rparr>,
      \<lparr>title = py ''D'', level = 1, page = 5\<rparr>, \<lparr>title = py ''E'', level = 2, page = 5\<rparr>])
   = Inr [\<lparr>item_title = py ''A'', page_number = 0, parent = None\<rparr>,
          \<lparr>item_title = py ''B'', page_number = 1, parent = Some 0\<rparr>,
          \<lparr>item_title = py ''C'', page_number = 2, parent = Some 0\<rparr>,
          \<lparr>item_title = py ''D'', page_number = 4, parent = None\<rparr>,
          \<lparr>item_title = py ''E'', page_number = 4, parent = Some 3\<rparr>]
   \<and> outline_of (add_bookmarks_to_pdf [py ''printed before''] 5
     [\<lparr>title = py ''A'', level = 1, page = 1\<rparr>, \<lparr>title = py ''Ghost'', level = 2, page = 99\<rparr>,
      \<lparr>title = py ''B'', level = 4, page = 2\<rparr>, \<lparr>title = py ''C'', level = 3, page = 3\<rparr>,
      \<lparr>title = py ''D'', level = 1, page = 5\<rparr>, \<lparr>title = py ''E'', level = 2, page = 5\<rparr>])
   = Inr [\<lparr>item_title = py ''A'', page_number = 0, parent = None\<rparr>,
          \<lparr>item_title = py ''B'', page_number = 1, parent = Some 0\<rparr>,
          \<lparr>item_title = py ''C'', page_number = 2, parent = Some 0\<rparr>,
          \<lparr>item_title = py ''D'', page_number = 4, parent = None\<rparr>,
          \<lparr>item_title = py ''E'', page_number = 4, parent = Some 3\<rparr>]
   \<and> outline_of (add_bookmarks_to_pdf [] 5
     [\<lparr>title = py ''A'', level = 1, page = 1\<rparr>, \<lparr>title = py ''B'', level = - 1, page = 2\<rparr>])
   = Inl IndexError"
proof -
  let ?hs = "[\<lparr>title = py ''A'', level = 1, page = 1\<rparr>, \<lparr>title = py ''Ghost'', level = 2, page = 99\<rparr>,
      \<lparr>title = py ''B'', level = 4, page = 2\<rparr>, \<lparr>title = py ''C'', level = 3, page = 3\<rparr>,
      \<lparr>title = py ''D'', level = 1, page = 5\<rparr>, \<lparr>title = py ''E'', level = 2, page = 5\<rparr>]"
  have tree: "bookmark_tree 5 ?hs
   = Inr [\<lparr>item_title = py ''A'', page_number = 0, parent = None\<rparr>,
          \<lparr>item_title = py ''B'', page_number = 1, parent = Some 0\<rparr>,
          \<lparr>item_title = py ''C'', page_number = 2, parent = Some 0\<rparr>,
          \<lparr>item_title = py ''D'', page_number = 4, parent = None\<rparr>,
          \<lparr>item_title = py ''E'', page_number = 4, parent = Some 3\<rparr>]"
    by (simp add: bookmark_tree_def attached_def in_range_def nearest_shallower_def
        Let_def upt_rec)
  have none: "bookmark_tree 5
     [\<lparr>title = py ''A'', level = 1, page = 1\<rparr>, \<lparr>title = py ''B'', level = - 1, page = 2\<rparr>]
     = Inl IndexError"
    by (simp add: bookmark_tree_def attached_def in_range_def Let_def)
  from tree none builder_deterministic [of "[]" 5 ?hs "[py ''printed before'']"]
    builder_deterministic [of "[]" 5
      "[\<lparr>title = py ''A'', level = 1, page = 1\<rparr>, \<lparr>title = py ''B'', level = - 1, page = 2\<rparr>]"]
  show ?thesis by simp
qed

end
